theory Spec2Isabelle
  imports Main "HOL-Library.Multiset"
begin

section \<open>Strip reordering of image\_reconstruction.py\<close>

subsection \<open>Pixels, images and strips\<close>

text \<open>Python exceptions that the modelled functions can raise.\<close>

datatype error = IndexError | ValueError

text \<open>
  Modelled from the spec: the class Pixel of the module \<^verbatim>\<open>image\<close>, which the source
  imports and reads through \<^verbatim>\<open>get_r()\<close>, \<^verbatim>\<open>get_g()\<close> and \<^verbatim>\<open>get_b()\<close>. A pixel
  is a triple of integer colour channels (Python integers are unbounded).
\<close>

datatype pixel = Pixel (get_r: int) (get_g: int) (get_b: int)

text \<open>
  Modelled from the spec: the class Image of the module \<^verbatim>\<open>image\<close>, of which the source
  uses the attribute \<^verbatim>\<open>pixels\<close> (the rows, top to bottom, each a list of pixels), the
  constructor \<^verbatim>\<open>Image(width, height)\<close> and the methods \<^verbatim>\<open>get_width\<close>,
  \<^verbatim>\<open>get_height\<close>, \<^verbatim>\<open>get_pixel(row, col)\<close> and \<^verbatim>\<open>set_pixel(row, col, pixel)\<close>: an
  image of fixed width and height with row-major pixel access. Reading or writing outside
  the pixel grid raises IndexError, as indexing a Python list does. The colour of the pixels
  of a new image is not known: it is the parameter \<open>fill\<close>.
\<close>

record image =
  width :: nat
  height :: nat
  pixels :: "pixel list list"

definition wf_image :: "image \<Rightarrow> bool" where
  "wf_image im \<longleftrightarrow>
     length (pixels im) = height im \<and> (\<forall>row \<in> set (pixels im). length row = width im)"

definition new_image :: "pixel \<Rightarrow> nat \<Rightarrow> nat \<Rightarrow> image" where
  "new_image fill w h = \<lparr>width = w, height = h, pixels = replicate h (replicate w fill)\<rparr>"

definition get_width :: "image \<Rightarrow> nat" where
  "get_width im = width im"

definition get_height :: "image \<Rightarrow> nat" where
  "get_height im = height im"

definition get_pixel :: "image \<Rightarrow> nat \<Rightarrow> nat \<Rightarrow> error + pixel" where
  "get_pixel im row col =
     (if row < length (pixels im) \<and> col < length (pixels im ! row)
      then Inr (pixels im ! row ! col) else Inl IndexError)"

definition set_pixel :: "image \<Rightarrow> nat \<Rightarrow> nat \<Rightarrow> pixel \<Rightarrow> error + image" where
  "set_pixel im row col p =
     (if row < length (pixels im) \<and> col < length (pixels im ! row)
      then Inr (im\<lparr>pixels := (pixels im)[row := (pixels im ! row)[col := p]]\<rparr>)
      else Inl IndexError)"

text \<open>
  A strip is an Image object: its identity and its contents. The source compares strips
  with \<^verbatim>\<open>!=\<close> and \<^verbatim>\<open>list.remove\<close>, that is with Python's \<^verbatim>\<open>==\<close>, which is object
  identity unless the class defines \<^verbatim>\<open>__eq__\<close>. Equality of the pairs covers both: with
  addresses for \<open>'i\<close> two entries are equal when they are the same object, with
  \<open>'i = unit\<close> when they have the same contents.
\<close>

type_synonym 'i strip = "'i \<times> image"

subsection \<open>rows\_comparison\<close>

text \<open>
  \<^verbatim>\<open>sum((p1.get_r() - p2.get_r()) ** 2 + ... for p1, p2 in zip(rowA, rowB))\<close>:
  \<^verbatim>\<open>zip\<close> stops at the end of the shorter row.
\<close>

definition pixel_diff :: "pixel \<Rightarrow> pixel \<Rightarrow> int" where
  "pixel_diff p1 p2 =
     (get_r p1 - get_r p2) ^ 2 + (get_g p1 - get_g p2) ^ 2 + (get_b p1 - get_b p2) ^ 2"

definition rows_comparison :: "pixel list \<Rightarrow> pixel list \<Rightarrow> int" where
  "rows_comparison rowA rowB = sum_list (map (\<lambda>(p1, p2). pixel_diff p1 p2) (zip rowA rowB))"

subsection \<open>The doubly-linked list\<close>

text \<open>
  Node objects live in a heap, a list indexed by address; \<open>prev\<close> and \<open>nxt\<close> (the
  source's \<^verbatim>\<open>next\<close>) hold an address or None. A LinkedList holds the addresses of its head
  and tail. Only \<^verbatim>\<open>__init__\<close>, \<^verbatim>\<open>prepend\<close> and \<^verbatim>\<open>to_list\<close> are used by
  build\_from\_bottom; the addresses they store are those of allocated nodes.
\<close>

record 'i node =
  strip :: "'i strip"
  prev :: "nat option"
  nxt :: "nat option"

record 'i linked_list =
  nodes :: "'i node list"
  head :: nat
  tail :: nat

definition Node :: "'i strip \<Rightarrow> 'i node" where
  "Node s = \<lparr>strip = s, prev = None, nxt = None\<rparr>"

definition LinkedList :: "'i strip \<Rightarrow> 'i linked_list" where
  "LinkedList s = \<lparr>nodes = [Node s], head = 0, tail = 0\<rparr>"

definition prepend :: "'i linked_list \<Rightarrow> 'i strip \<Rightarrow> 'i linked_list" where
  "prepend l s =
     (let a = length (nodes l);
          new_node = (Node s)\<lparr>nxt := Some (head l)\<rparr>;
          heap1 = nodes l @ [new_node];
          heap2 = heap1[head l := (heap1 ! head l)\<lparr>prev := Some a\<rparr>]
      in \<lparr>nodes = heap2, head = a, tail = tail l\<rparr>)"

text \<open>
  \<^verbatim>\<open>while current: ordered_strips.append(current.strip); current = current.next\<close>.
  The loop follows pointers, so it is a partial function: None is a walk that never ends.
\<close>

partial_function (option) walk ::
  "'i node list \<Rightarrow> nat option \<Rightarrow> 'i strip list \<Rightarrow> 'i strip list option" where
  "walk heap current ordered_strips =
     (case current of
        None \<Rightarrow> Some ordered_strips
      | Some a \<Rightarrow> walk heap (nxt (heap ! a)) (ordered_strips @ [strip (heap ! a)]))"

definition to_list :: "'i linked_list \<Rightarrow> 'i strip list option" where
  "to_list l = walk (nodes l) (Some (head l)) []"

subsection \<open>find\_bottom\_strip\<close>

text \<open>
  The generator \<^verbatim>\<open>rows_comparison(bottom_row, other.pixels[0]) for other in strips
  if other != candidate\<close>; \<^verbatim>\<open>other.pixels[0]\<close> raises IndexError on a strip without rows.
\<close>

fun match_scores :: "pixel list \<Rightarrow> 'i strip \<Rightarrow> 'i strip list \<Rightarrow> error + int list" where
  "match_scores bottom_row candidate [] = Inr []"
| "match_scores bottom_row candidate (other # rest) =
     (if other \<noteq> candidate then
        (case pixels (snd other) of
           [] \<Rightarrow> Inl IndexError
         | top_row # _ \<Rightarrow>
             (case match_scores bottom_row candidate rest of
                Inl e \<Rightarrow> Inl e
              | Inr ds \<Rightarrow> Inr (rows_comparison bottom_row top_row # ds)))
      else match_scores bottom_row candidate rest)"

text \<open>Python's \<^verbatim>\<open>min\<close> of an iterable: ValueError when it is empty.\<close>

fun py_min :: "int list \<Rightarrow> error + int" where
  "py_min [] = Inl ValueError"
| "py_min (d # ds) = Inr (fold min ds d)"

definition best_match_score :: "'i strip list \<Rightarrow> 'i strip \<Rightarrow> error + int" where
  "best_match_score strips candidate =
     (if pixels (snd candidate) = [] then Inl IndexError
      else (case match_scores (last (pixels (snd candidate))) candidate strips of
              Inl e \<Rightarrow> Inl e
            | Inr ds \<Rightarrow> py_min ds))"

text \<open>The loop over the candidates, with \<open>best_strip\<close> and \<open>worst_match_score\<close> as state.\<close>

fun bottom_loop ::
  "'i strip list \<Rightarrow> 'i strip list \<Rightarrow> 'i strip option \<Rightarrow> int \<Rightarrow> error + 'i strip option" where
  "bottom_loop strips [] best_strip worst_match_score = Inr best_strip"
| "bottom_loop strips (candidate # rest) best_strip worst_match_score =
     (case best_match_score strips candidate of
        Inl e \<Rightarrow> Inl e
      | Inr score \<Rightarrow>
          (if score > worst_match_score then bottom_loop strips rest (Some candidate) score
           else bottom_loop strips rest best_strip worst_match_score))"

definition find_bottom_strip :: "'i strip list \<Rightarrow> error + 'i strip option" where
  "find_bottom_strip strips = bottom_loop strips strips None (- 1)"

subsection \<open>find\_most\_similar\_strip\_for\_upwards\<close>

text \<open>\<open>best_distance\<close> starts as \<^verbatim>\<open>float("inf")\<close>, above every integer.\<close>

datatype distance = Infinity | Finite int

fun less_distance :: "int \<Rightarrow> distance \<Rightarrow> bool" where
  "less_distance d Infinity = True"
| "less_distance d (Finite b) = (d < b)"

fun upwards_loop ::
  "pixel list \<Rightarrow> 'i strip list \<Rightarrow> 'i strip option \<Rightarrow> distance \<Rightarrow> error + 'i strip option" where
  "upwards_loop current_top_row [] best_match best_distance = Inr best_match"
| "upwards_loop current_top_row (candidate # rest) best_match best_distance =
     (if pixels (snd candidate) = [] then Inl IndexError
      else (let d = rows_comparison current_top_row (last (pixels (snd candidate)))
            in if less_distance d best_distance
               then upwards_loop current_top_row rest (Some candidate) (Finite d)
               else upwards_loop current_top_row rest best_match best_distance))"

definition find_most_similar_strip_for_upwards ::
  "'i strip \<Rightarrow> 'i strip list \<Rightarrow> error + 'i strip option" where
  "find_most_similar_strip_for_upwards current_top_strip candidate_strips =
     (case pixels (snd current_top_strip) of
        [] \<Rightarrow> Inl IndexError
      | current_top_row # _ \<Rightarrow> upwards_loop current_top_row candidate_strips None Infinity)"

subsection \<open>build\_from\_bottom\<close>

text \<open>\<^verbatim>\<open>list.remove(x)\<close>: removes the first entry equal to x, ValueError when there is none.\<close>

definition list_remove :: "'a \<Rightarrow> 'a list \<Rightarrow> error + 'a list" where
  "list_remove x xs = (if x \<in> set xs then Inr (remove1 x xs) else Inl ValueError)"

text \<open>
  The functions that mutate the caller's list \<open>image_strips\<close> return it: the first
  component of the result is the list as the call leaves it, also when the call raises.
\<close>

function build_loop ::
  "'i strip list \<Rightarrow> 'i linked_list \<Rightarrow> 'i strip list \<times> (error + 'i linked_list)" where
  "build_loop image_strips linked =
     (if image_strips = [] then (image_strips, Inr linked)
      else (let current_top_strip = strip (nodes linked ! head linked)
            in case find_most_similar_strip_for_upwards current_top_strip image_strips of
                 Inl e \<Rightarrow> (image_strips, Inl e)
               | Inr None \<Rightarrow> (image_strips, Inr linked)
               | Inr (Some best_match) \<Rightarrow>
                   (case list_remove best_match image_strips of
                      Inl e \<Rightarrow> (image_strips, Inl e)
                    | Inr image_strips' \<Rightarrow>
                        build_loop image_strips' (prepend linked best_match))))"
  by pat_completeness auto
termination
proof (relation "measure (\<lambda>(image_strips, linked). length image_strips)")
  show "wf (measure (\<lambda>(image_strips :: 'i strip list, linked :: 'i linked_list).
              length image_strips))"
    by simp
next
  fix image_strips :: "'i strip list" and linked :: "'i linked_list"
    and best_match image_strips'
  assume "list_remove best_match image_strips = Inr image_strips'"
  then have "best_match \<in> set image_strips" "image_strips' = remove1 best_match image_strips"
    by (auto simp: list_remove_def split: if_splits)
  then have "length image_strips' < length image_strips"
    by (simp add: length_remove1) (metis length_pos_if_in_set diff_Suc_less)
  then show "((image_strips', prepend linked best_match), (image_strips, linked))
             \<in> measure (\<lambda>(image_strips, linked). length image_strips)"
    by simp
qed

text \<open>
  The result is None when \<^verbatim>\<open>to_list\<close> does not return. \<^verbatim>\<open>image_strips.remove(None)\<close>,
  reached when find\_bottom\_strip returns None, raises ValueError: None is no strip.
\<close>

definition build_from_bottom ::
  "'i strip list \<Rightarrow> ('i strip list \<times> (error + 'i strip list)) option" where
  "build_from_bottom image_strips =
     (case find_bottom_strip image_strips of
        Inl e \<Rightarrow> Some (image_strips, Inl e)
      | Inr None \<Rightarrow> Some (image_strips, Inl ValueError)
      | Inr (Some bottom_strip) \<Rightarrow>
          (case list_remove bottom_strip image_strips of
             Inl e \<Rightarrow> Some (image_strips, Inl e)
           | Inr image_strips1 \<Rightarrow>
               (case build_loop image_strips1 (LinkedList bottom_strip) of
                  (image_strips2, Inl e) \<Rightarrow> Some (image_strips2, Inl e)
                | (image_strips2, Inr linked) \<Rightarrow>
                    (case to_list linked of
                       None \<Rightarrow> None
                     | Some ordered_strips \<Rightarrow> Some (image_strips2, Inr ordered_strips)))))"

subsection \<open>merge\_ordered\_strips\<close>

text \<open>The three nested loops, innermost first; \<open>final_image\<close> is the state.\<close>

fun copy_cols :: "image \<Rightarrow> image \<Rightarrow> nat \<Rightarrow> nat \<Rightarrow> nat list \<Rightarrow> error + image" where
  "copy_cols final_image s current_height row [] = Inr final_image"
| "copy_cols final_image s current_height row (col # cols) =
     (case get_pixel s row col of
        Inl e \<Rightarrow> Inl e
      | Inr p \<Rightarrow>
          (case set_pixel final_image (current_height + row) col p of
             Inl e \<Rightarrow> Inl e
           | Inr final_image' \<Rightarrow> copy_cols final_image' s current_height row cols))"

fun copy_rows :: "image \<Rightarrow> image \<Rightarrow> nat \<Rightarrow> nat list \<Rightarrow> error + image" where
  "copy_rows final_image s current_height [] = Inr final_image"
| "copy_rows final_image s current_height (row # rows) =
     (case copy_cols final_image s current_height row [0..<get_width s] of
        Inl e \<Rightarrow> Inl e
      | Inr final_image' \<Rightarrow> copy_rows final_image' s current_height rows)"

fun copy_strips :: "image \<Rightarrow> nat \<Rightarrow> 'i strip list \<Rightarrow> error + image" where
  "copy_strips final_image current_height [] = Inr final_image"
| "copy_strips final_image current_height (s # rest) =
     (case copy_rows final_image (snd s) current_height [0..<get_height (snd s)] of
        Inl e \<Rightarrow> Inl e
      | Inr final_image' \<Rightarrow>
          copy_strips final_image' (current_height + get_height (snd s)) rest)"

text \<open>\<^verbatim>\<open>ordered_strips[0]\<close> raises IndexError on the empty list.\<close>

definition merge_ordered_strips :: "pixel \<Rightarrow> 'i strip list \<Rightarrow> error + image" where
  "merge_ordered_strips fill ordered_strips =
     (let total_height = sum_list (map (\<lambda>s. get_height (snd s)) ordered_strips)
      in case ordered_strips of
           [] \<Rightarrow> Inl IndexError
         | first # _ \<Rightarrow>
             copy_strips (new_image fill (get_width (snd first)) total_height) 0 ordered_strips)"

text \<open>
  The pipeline of \<^verbatim>\<open>main\<close>: \<^verbatim>\<open>ordered = build_from_bottom(image_strips)\<close>, then
  \<^verbatim>\<open>merge_ordered_strips(ordered)\<close>.
\<close>

definition pipeline :: "pixel \<Rightarrow> 'i strip list \<Rightarrow> (error + image) option" where
  "pipeline fill image_strips =
     (case build_from_bottom image_strips of
        None \<Rightarrow> None
      | Some (_, Inl e) \<Rightarrow> Some (Inl e)
      | Some (_, Inr ordered) \<Rightarrow> Some (merge_ordered_strips fill ordered))"

subsection \<open>Notions used to state the properties\<close>

text \<open>
  The distance that find\_most\_similar\_strip\_for\_upwards minimises: rows\_comparison of the
  current strip's first row and the candidate's last row.
\<close>

definition upward_distance :: "'i strip \<Rightarrow> 'i strip \<Rightarrow> int" where
  "upward_distance current_top_strip candidate =
     rows_comparison (hd (pixels (snd current_top_strip))) (last (pixels (snd candidate)))"

text \<open>
  The score of the spec's maximin rule, in the spec's words: the minimum rows\_comparison
  between the candidate's last row and the first row of every other strip, the other
  strips being those that \<^verbatim>\<open>other != candidate\<close> lets through.
\<close>

definition spec_best_match_score :: "'i strip list \<Rightarrow> 'i strip \<Rightarrow> int" where
  "spec_best_match_score strips candidate =
     Min ((\<lambda>other. rows_comparison (last (pixels (snd candidate))) (hd (pixels (snd other))))
            ` {other \<in> set strips. other \<noteq> candidate})"

text \<open>
  The sequence a LinkedList stands for, head to tail: the node at address \<open>k\<close> holds the
  strip at position \<open>k\<close> from the tail, and its \<open>nxt\<close> is the node below it.
\<close>

definition ll_repr :: "'i linked_list \<Rightarrow> 'i strip list \<Rightarrow> bool" where
  "ll_repr l ys \<longleftrightarrow>
     ys \<noteq> [] \<and> length (nodes l) = length ys \<and> head l = length ys - 1 \<and>
     (\<forall>k < length ys. strip (nodes l ! k) = rev ys ! k \<and>
        nxt (nodes l ! k) = (if k = 0 then None else Some (k - 1)))"

text \<open>
  Example strips, with natural numbers as object identities: \<open>gray_strip i t b\<close> is
  the object \<open>i\<close>, two rows of two pixels, its top row of gray level \<open>t\<close> and its bottom
  row of gray level \<open>b\<close>.
\<close>

definition gray_strip :: "nat \<Rightarrow> int \<Rightarrow> int \<Rightarrow> nat strip" where
  "gray_strip i t b =
     (i, \<lparr>width = 2, height = 2,
          pixels = [[Pixel t t t, Pixel t t t], [Pixel b b b, Pixel b b b]]\<rparr>)"

section \<open>Properties of rows\_comparison\<close>

lemma pixel_diff_sym: "pixel_diff p q = pixel_diff q p"
  by (simp add: pixel_diff_def power2_commute)

lemma pixel_diff_nonneg: "0 \<le> pixel_diff p q"
  by (simp add: pixel_diff_def)

lemma pixel_diff_zero_iff: "pixel_diff p q = 0 \<longleftrightarrow> p = q"
proof
  assume z: "pixel_diff p q = 0"
  have a: "0 \<le> (get_r p - get_r q) ^ 2" and b: "0 \<le> (get_g p - get_g q) ^ 2"
    and c: "0 \<le> (get_b p - get_b q) ^ 2"
    by simp_all
  from z a b c have "(get_r p - get_r q) ^ 2 = 0" "(get_g p - get_g q) ^ 2 = 0"
    "(get_b p - get_b q) ^ 2 = 0"
    unfolding pixel_diff_def by linarith+
  then show "p = q"
    by (cases p, cases q) simp
next
  assume "p = q"
  then show "pixel_diff p q = 0"
    by (simp add: pixel_diff_def)
qed

lemma rows_comparison_Nil [simp]:
  "rows_comparison [] ys = 0" "rows_comparison xs [] = 0"
  by (simp_all add: rows_comparison_def)

lemma rows_comparison_Cons [simp]:
  "rows_comparison (x # xs) (y # ys) = pixel_diff x y + rows_comparison xs ys"
  by (simp add: rows_comparison_def)

lemma rows_comparison_nonneg: "0 \<le> rows_comparison xs ys"
proof (induction xs arbitrary: ys)
  case Nil
  show ?case by simp
next
  case (Cons x xs)
  show ?case
  proof (cases ys)
    case Nil
    then show ?thesis by simp
  next
    case (Cons y ys')
    with Cons.IH [of ys'] pixel_diff_nonneg [of x y] show ?thesis by simp
  qed
qed

lemma rows_comparison_sym: "rows_comparison xs ys = rows_comparison ys xs"
proof (induction xs arbitrary: ys)
  case Nil
  show ?case by simp
next
  case (Cons x xs)
  show ?case
  proof (cases ys)
    case Nil
    then show ?thesis by simp
  next
    case (Cons y ys')
    with Cons.IH [of ys'] pixel_diff_sym [of x y] show ?thesis by simp
  qed
qed

lemma rows_comparison_zero_iff:
  "length xs = length ys \<Longrightarrow> rows_comparison xs ys = 0 \<longleftrightarrow> xs = ys"
proof (induction xs ys rule: list_induct2)
  case Nil
  show ?case by simp
next
  case (Cons x xs y ys)
  have "pixel_diff x y + rows_comparison xs ys = 0
        \<longleftrightarrow> pixel_diff x y = 0 \<and> rows_comparison xs ys = 0"
    using pixel_diff_nonneg [of x y] rows_comparison_nonneg [of xs ys] by linarith
  with Cons.IH show ?case
    by (simp add: pixel_diff_zero_iff)
qed

lemma rows_comparison_nth_sum:
  "rows_comparison xs ys = (\<Sum>i < min (length xs) (length ys). pixel_diff (xs ! i) (ys ! i))"
proof (induction xs arbitrary: ys)
  case Nil
  show ?case by simp
next
  case (Cons x xs)
  show ?case
  proof (cases ys)
    case Nil
    then show ?thesis by simp
  next
    case (Cons y ys')
    have "(\<Sum>i < Suc (min (length xs) (length ys')). pixel_diff ((x # xs) ! i) ((y # ys') ! i))
          = pixel_diff x y + (\<Sum>i < min (length xs) (length ys'). pixel_diff (xs ! i) (ys' ! i))"
      by (simp add: sum.lessThan_Suc_shift del: sum.lessThan_Suc)
    with Cons Cons.IH [of ys'] show ?thesis by simp
  qed
qed

text \<open>
  C7, as stated, fails: two rows of different lengths that agree on the shorter length
  have distance 0 without being identical.
\<close>

theorem rows_comparison_zero_counterexample:
  "rows_comparison [] [Pixel 0 0 0] = 0 \<and> [] \<noteq> [Pixel 0 0 0]"
  by simp

text \<open>
  C7 (amended): rows\_comparison is symmetric for all rows, and for two rows of equal length
  it is 0 exactly when the rows are pixel-identical.
\<close>

theorem rows_comparison_symmetric_zero:
  "rows_comparison A B = rows_comparison B A \<and>
   (length A = length B \<longrightarrow> (rows_comparison A B = 0 \<longleftrightarrow> A = B))"
  using rows_comparison_sym [of A B] rows_comparison_zero_iff [of A B] by blast

theorem rows_comparison_symmetric_zero_witness:
  "rows_comparison [Pixel 1 2 3, Pixel 4 5 6] [Pixel 1 2 3, Pixel 4 5 7]
     = rows_comparison [Pixel 1 2 3, Pixel 4 5 7] [Pixel 1 2 3, Pixel 4 5 6] \<and>
   rows_comparison [Pixel 1 2 3, Pixel 4 5 6] [Pixel 1 2 3, Pixel 4 5 7] \<noteq> 0 \<and>
   rows_comparison [Pixel 1 2 3, Pixel 4 5 6] [Pixel 1 2 3, Pixel 4 5 6] = 0"
  using rows_comparison_symmetric_zero [of "[Pixel 1 2 3, Pixel 4 5 6]" "[Pixel 1 2 3, Pixel 4 5 7]"]
    rows_comparison_symmetric_zero [of "[Pixel 1 2 3, Pixel 4 5 6]" "[Pixel 1 2 3, Pixel 4 5 6]"]
  by simp

text \<open>
  C9: for rows of any lengths, in particular differing ones, rows\_comparison is the sum of
  the per-channel squared differences over the first min (len A) (len B) positions, the
  positions that \<^verbatim>\<open>zip\<close> pairs.
\<close>

theorem rows_comparison_paired_truncation:
  "rows_comparison A B =
     (\<Sum>i < min (length A) (length B).
        (get_r (A ! i) - get_r (B ! i)) ^ 2 + (get_g (A ! i) - get_g (B ! i)) ^ 2
          + (get_b (A ! i) - get_b (B ! i)) ^ 2)"
  using rows_comparison_nth_sum [of A B] by (simp add: pixel_diff_def)

section \<open>Properties of find\_most\_similar\_strip\_for\_upwards\<close>

lemma upwards_loop_running:
  assumes "\<forall>c \<in> set cs. pixels (snd c) \<noteq> []"
  shows "\<exists>r. upwards_loop row cs (Some b) (Finite (rows_comparison row (last (pixels (snd b)))))
               = Inr (Some r) \<and>
           ((r = b \<and> (\<forall>c \<in> set cs. rows_comparison row (last (pixels (snd b)))
                                      \<le> rows_comparison row (last (pixels (snd c))))) \<or>
            (\<exists>pre post. cs = pre @ r # post \<and>
               rows_comparison row (last (pixels (snd r))) < rows_comparison row (last (pixels (snd b))) \<and>
               (\<forall>c \<in> set pre. rows_comparison row (last (pixels (snd r)))
                                 < rows_comparison row (last (pixels (snd c)))) \<and>
               (\<forall>c \<in> set post. rows_comparison row (last (pixels (snd r)))
                                 \<le> rows_comparison row (last (pixels (snd c))))))"
  using assms
proof (induction cs arbitrary: b)
  case Nil
  show ?case by simp
next
  case (Cons c cs)
  let ?D = "\<lambda>x. rows_comparison row (last (pixels (snd x)))"
  from Cons.prems have rows: "pixels (snd c) \<noteq> []" and rest: "\<forall>c \<in> set cs. pixels (snd c) \<noteq> []"
    by simp_all
  show ?case
  proof (cases "?D c < ?D b")
    case True
    from Cons.IH [OF rest, of c] obtain r where
      run: "upwards_loop row cs (Some c) (Finite (?D c)) = Inr (Some r)" and
      alt: "(r = c \<and> (\<forall>x \<in> set cs. ?D c \<le> ?D x)) \<or>
            (\<exists>pre post. cs = pre @ r # post \<and> ?D r < ?D c \<and>
               (\<forall>x \<in> set pre. ?D r < ?D x) \<and> (\<forall>x \<in> set post. ?D r \<le> ?D x))"
      by blast
    from run rows True have res: "upwards_loop row (c # cs) (Some b) (Finite (?D b)) = Inr (Some r)"
      by simp
    from alt show ?thesis
    proof
      assume "r = c \<and> (\<forall>x \<in> set cs. ?D c \<le> ?D x)"
      with True have "c # cs = [] @ r # cs \<and> ?D r < ?D b \<and>
          (\<forall>x \<in> set []. ?D r < ?D x) \<and> (\<forall>x \<in> set cs. ?D r \<le> ?D x)"
        by simp
      with res show ?thesis by blast
    next
      assume "\<exists>pre post. cs = pre @ r # post \<and> ?D r < ?D c \<and>
               (\<forall>x \<in> set pre. ?D r < ?D x) \<and> (\<forall>x \<in> set post. ?D r \<le> ?D x)"
      then obtain pre post where "cs = pre @ r # post" "?D r < ?D c"
        "\<forall>x \<in> set pre. ?D r < ?D x" "\<forall>x \<in> set post. ?D r \<le> ?D x"
        by blast
      with True have "c # cs = (c # pre) @ r # post \<and> ?D r < ?D b \<and>
          (\<forall>x \<in> set (c # pre). ?D r < ?D x) \<and> (\<forall>x \<in> set post. ?D r \<le> ?D x)"
        by simp
      with res show ?thesis by blast
    qed
  next
    case False
    from Cons.IH [OF rest, of b] obtain r where
      run: "upwards_loop row cs (Some b) (Finite (?D b)) = Inr (Some r)" and
      alt: "(r = b \<and> (\<forall>x \<in> set cs. ?D b \<le> ?D x)) \<or>
            (\<exists>pre post. cs = pre @ r # post \<and> ?D r < ?D b \<and>
               (\<forall>x \<in> set pre. ?D r < ?D x) \<and> (\<forall>x \<in> set post. ?D r \<le> ?D x))"
      by blast
    from run rows False have res: "upwards_loop row (c # cs) (Some b) (Finite (?D b)) = Inr (Some r)"
      by simp
    from alt show ?thesis
    proof
      assume "r = b \<and> (\<forall>x \<in> set cs. ?D b \<le> ?D x)"
      with False have "r = b \<and> (\<forall>x \<in> set (c # cs). ?D b \<le> ?D x)"
        by simp
      with res show ?thesis by blast
    next
      assume "\<exists>pre post. cs = pre @ r # post \<and> ?D r < ?D b \<and>
               (\<forall>x \<in> set pre. ?D r < ?D x) \<and> (\<forall>x \<in> set post. ?D r \<le> ?D x)"
      then obtain pre post where "cs = pre @ r # post" "?D r < ?D b"
        "\<forall>x \<in> set pre. ?D r < ?D x" "\<forall>x \<in> set post. ?D r \<le> ?D x"
        by blast
      with False have "c # cs = (c # pre) @ r # post \<and> ?D r < ?D b \<and>
          (\<forall>x \<in> set (c # pre). ?D r < ?D x) \<and> (\<forall>x \<in> set post. ?D r \<le> ?D x)"
        by simp
      with res show ?thesis by blast
    qed
  qed
qed

lemma upwards_loop_first_min:
  assumes "cs \<noteq> []" "\<forall>c \<in> set cs. pixels (snd c) \<noteq> []"
  shows "\<exists>r pre post. upwards_loop row cs None Infinity = Inr (Some r) \<and> cs = pre @ r # post \<and>
           (\<forall>c \<in> set pre. rows_comparison row (last (pixels (snd r)))
                             < rows_comparison row (last (pixels (snd c)))) \<and>
           (\<forall>c \<in> set post. rows_comparison row (last (pixels (snd r)))
                             \<le> rows_comparison row (last (pixels (snd c))))"
proof -
  let ?D = "\<lambda>x. rows_comparison row (last (pixels (snd x)))"
  from assms obtain c cs' where cs: "cs = c # cs'" and rows: "pixels (snd c) \<noteq> []"
    and rest: "\<forall>c \<in> set cs'. pixels (snd c) \<noteq> []"
    by (cases cs) auto
  from upwards_loop_running [OF rest, of row c] obtain r where
    run: "upwards_loop row cs' (Some c) (Finite (?D c)) = Inr (Some r)" and
    alt: "(r = c \<and> (\<forall>x \<in> set cs'. ?D c \<le> ?D x)) \<or>
          (\<exists>pre post. cs' = pre @ r # post \<and> ?D r < ?D c \<and>
             (\<forall>x \<in> set pre. ?D r < ?D x) \<and> (\<forall>x \<in> set post. ?D r \<le> ?D x))"
    by blast
  from run rows cs have res: "upwards_loop row cs None Infinity = Inr (Some r)"
    by simp
  from alt show ?thesis
  proof
    assume "r = c \<and> (\<forall>x \<in> set cs'. ?D c \<le> ?D x)"
    with cs have "cs = [] @ r # cs' \<and> (\<forall>x \<in> set []. ?D r < ?D x) \<and> (\<forall>x \<in> set cs'. ?D r \<le> ?D x)"
      by simp
    with res show ?thesis by blast
  next
    assume "\<exists>pre post. cs' = pre @ r # post \<and> ?D r < ?D c \<and>
             (\<forall>x \<in> set pre. ?D r < ?D x) \<and> (\<forall>x \<in> set post. ?D r \<le> ?D x)"
    then obtain pre post where "cs' = pre @ r # post" "?D r < ?D c"
      "\<forall>x \<in> set pre. ?D r < ?D x" "\<forall>x \<in> set post. ?D r \<le> ?D x"
      by blast
    with cs have "cs = (c # pre) @ r # post \<and>
        (\<forall>x \<in> set (c # pre). ?D r < ?D x) \<and> (\<forall>x \<in> set post. ?D r \<le> ?D x)"
      by simp
    with res show ?thesis by blast
  qed
qed

text \<open>
  C6: for every current top strip, find\_most\_similar\_strip\_for\_upwards called with an
  empty candidate pool returns the no-match sentinel None and raises nothing. A strip is
  an image with a first and a last pixel row (the function reads
  \<^verbatim>\<open>current_top_strip.pixels[0]\<close> before it looks at the pool), which is the
  hypothesis.
\<close>

theorem empty_pool_returns_None:
  "pixels (snd current_top_strip) \<noteq> [] \<Longrightarrow>
   find_most_similar_strip_for_upwards current_top_strip [] = Inr None"
  by (simp add: find_most_similar_strip_for_upwards_def split: list.splits)

theorem empty_pool_returns_None_witness:
  "pixels (snd (gray_strip 0 100 0)) \<noteq> [] \<and>
   find_most_similar_strip_for_upwards (gray_strip 0 100 0) [] = Inr None"
proof -
  have h: "pixels (snd (gray_strip 0 100 0)) \<noteq> []"
    by (simp add: gray_strip_def)
  from empty_pool_returns_None [OF h] h show ?thesis by simp
qed

text \<open>
  C4: for every current top strip and every non-empty candidate pool,
  find\_most\_similar\_strip\_for\_upwards returns a candidate of minimum distance
  (rows\_comparison of the current strip's first row and the candidate's last row), and
  among the candidates of minimum distance the earliest one: every candidate before it in
  the pool is strictly farther, every candidate after it is at least as far. The
  hypotheses on the pixel rows say that the strips have the first and last rows the
  property speaks of.
\<close>

theorem most_similar_first_minimum:
  assumes "pixels (snd current_top_strip) \<noteq> []" and "candidate_strips \<noteq> []"
    and "\<forall>c \<in> set candidate_strips. pixels (snd c) \<noteq> []"
  shows "\<exists>best pre post.
           find_most_similar_strip_for_upwards current_top_strip candidate_strips
             = Inr (Some best) \<and>
           candidate_strips = pre @ best # post \<and>
           (\<forall>c \<in> set pre. upward_distance current_top_strip best
                              < upward_distance current_top_strip c) \<and>
           (\<forall>c \<in> set post. upward_distance current_top_strip best
                               \<le> upward_distance current_top_strip c)"
proof -
  from assms(1) obtain row rows where px: "pixels (snd current_top_strip) = row # rows"
    by (cases "pixels (snd current_top_strip)") auto
  then have call: "find_most_similar_strip_for_upwards current_top_strip candidate_strips
                   = upwards_loop row candidate_strips None Infinity"
    by (simp add: find_most_similar_strip_for_upwards_def)
  from px have dist: "upward_distance current_top_strip c
                      = rows_comparison row (last (pixels (snd c)))" for c
    by (simp add: upward_distance_def)
  from upwards_loop_first_min [OF assms(2) assms(3), of row] show ?thesis
    unfolding call dist .
qed

theorem most_similar_first_minimum_witness:
  "pixels (snd (gray_strip 0 100 0)) \<noteq> [] \<and>
   [gray_strip 1 0 50, gray_strip 2 0 90, gray_strip 3 7 110, gray_strip 4 0 90] \<noteq> [] \<and>
   pixels (snd (gray_strip 1 0 50)) \<noteq> [] \<and> pixels (snd (gray_strip 2 0 90)) \<noteq> [] \<and>
   pixels (snd (gray_strip 3 7 110)) \<noteq> [] \<and> pixels (snd (gray_strip 4 0 90)) \<noteq> [] \<and>
   find_most_similar_strip_for_upwards (gray_strip 0 100 0)
     [gray_strip 1 0 50, gray_strip 2 0 90, gray_strip 3 7 110, gray_strip 4 0 90]
     = Inr (Some (gray_strip 2 0 90)) \<and>
   (\<exists>best pre post.
      find_most_similar_strip_for_upwards (gray_strip 0 100 0)
        [gray_strip 1 0 50, gray_strip 2 0 90, gray_strip 3 7 110, gray_strip 4 0 90]
        = Inr (Some best) \<and>
      [gray_strip 1 0 50, gray_strip 2 0 90, gray_strip 3 7 110, gray_strip 4 0 90]
        = pre @ best # post \<and>
      (\<forall>c \<in> set pre. upward_distance (gray_strip 0 100 0) best
                         < upward_distance (gray_strip 0 100 0) c) \<and>
      (\<forall>c \<in> set post. upward_distance (gray_strip 0 100 0) best
                          \<le> upward_distance (gray_strip 0 100 0) c))"
proof -
  have h1: "pixels (snd (gray_strip 0 100 0)) \<noteq> []"
    by (simp add: gray_strip_def)
  have h2: "[gray_strip 1 0 50, gray_strip 2 0 90, gray_strip 3 7 110, gray_strip 4 0 90] \<noteq> []"
    by simp
  have h3: "\<forall>c \<in> set [gray_strip 1 0 50, gray_strip 2 0 90, gray_strip 3 7 110, gray_strip 4 0 90].
              pixels (snd c) \<noteq> []"
    by (simp add: gray_strip_def)
  have v: "find_most_similar_strip_for_upwards (gray_strip 0 100 0)
             [gray_strip 1 0 50, gray_strip 2 0 90, gray_strip 3 7 110, gray_strip 4 0 90]
           = Inr (Some (gray_strip 2 0 90))"
    by (simp add: find_most_similar_strip_for_upwards_def gray_strip_def pixel_diff_def)
  have h4: "pixels (snd (gray_strip 1 0 50)) \<noteq> [] \<and> pixels (snd (gray_strip 2 0 90)) \<noteq> [] \<and>
    pixels (snd (gray_strip 3 7 110)) \<noteq> [] \<and> pixels (snd (gray_strip 4 0 90)) \<noteq> []"
    by (simp add: gray_strip_def)
  from most_similar_first_minimum [OF h1 h2 h3] h1 h2 h4 v show ?thesis
    by blast
qed

section \<open>Properties of find\_bottom\_strip\<close>

lemma match_scores_eq:
  assumes "\<forall>s \<in> set strips. pixels (snd s) \<noteq> []"
  shows "match_scores row c strips
         = Inr (map (\<lambda>other. rows_comparison row (hd (pixels (snd other))))
                  (filter (\<lambda>other. other \<noteq> c) strips))"
  using assms
proof (induction strips)
  case Nil
  show ?case by simp
next
  case (Cons s strips)
  then obtain top rest where "pixels (snd s) = top # rest"
    by (cases "pixels (snd s)") auto
  with Cons show ?case by simp
qed

lemma py_min_eq: "ds \<noteq> [] \<Longrightarrow> py_min ds = Inr (Min (set ds))"
proof (cases ds)
  case Nil
  assume "ds \<noteq> []"
  with Nil show ?thesis by simp
next
  case (Cons d ds')
  have "Min (set (d # ds')) = fold min ds' d"
    by (rule Min.set_eq_fold)
  with Cons show ?thesis by simp
qed

lemma best_match_score_eq:
  assumes rows: "\<forall>s \<in> set strips. pixels (snd s) \<noteq> []"
    and c: "c \<in> set strips" and other: "\<exists>other \<in> set strips. other \<noteq> c"
  shows "best_match_score strips c = Inr (spec_best_match_score strips c)"
proof -
  let ?f = "\<lambda>other. rows_comparison (last (pixels (snd c))) (hd (pixels (snd other)))"
  let ?ds = "map ?f (filter (\<lambda>other. other \<noteq> c) strips)"
  from other have ne: "?ds \<noteq> []"
    by (auto simp: filter_empty_conv)
  have set: "set ?ds = ?f ` {other \<in> set strips. other \<noteq> c}"
    by auto
  from rows c have "pixels (snd c) \<noteq> []" by blast
  then have "best_match_score strips c = py_min ?ds"
    by (simp add: best_match_score_def match_scores_eq [OF rows])
  also from ne have "\<dots> = Inr (Min (set ?ds))"
    by (rule py_min_eq)
  finally show ?thesis
    by (simp only: set spec_best_match_score_def)
qed

lemma spec_best_match_score_nonneg:
  assumes "\<exists>other \<in> set strips. other \<noteq> c"
  shows "0 \<le> spec_best_match_score strips c"
proof -
  let ?f = "\<lambda>other. rows_comparison (last (pixels (snd c))) (hd (pixels (snd other)))"
  let ?S = "?f ` {other \<in> set strips. other \<noteq> c}"
  from assms have "finite ?S" "?S \<noteq> {}" by auto
  then have "Min ?S \<in> ?S" by (rule Min_in)
  then show ?thesis
    by (auto simp: spec_best_match_score_def rows_comparison_nonneg)
qed

lemma bottom_loop_running:
  assumes "\<forall>c \<in> set cs. best_match_score strips c = Inr (S c)"
  shows "\<exists>r. bottom_loop strips cs (Some b) (S b) = Inr (Some r) \<and>
           ((r = b \<and> (\<forall>c \<in> set cs. S c \<le> S b)) \<or>
            (\<exists>pre post. cs = pre @ r # post \<and> S b < S r \<and>
               (\<forall>c \<in> set pre. S c < S r) \<and> (\<forall>c \<in> set post. S c \<le> S r)))"
  using assms
proof (induction cs arbitrary: b)
  case Nil
  show ?case by simp
next
  case (Cons c cs)
  from Cons.prems have sc: "best_match_score strips c = Inr (S c)"
    and rest: "\<forall>c \<in> set cs. best_match_score strips c = Inr (S c)"
    by simp_all
  show ?case
  proof (cases "S c > S b")
    case True
    from Cons.IH [OF rest, of c] obtain r where
      run: "bottom_loop strips cs (Some c) (S c) = Inr (Some r)" and
      alt: "(r = c \<and> (\<forall>x \<in> set cs. S x \<le> S c)) \<or>
            (\<exists>pre post. cs = pre @ r # post \<and> S c < S r \<and>
               (\<forall>x \<in> set pre. S x < S r) \<and> (\<forall>x \<in> set post. S x \<le> S r))"
      by blast
    from run sc True have res: "bottom_loop strips (c # cs) (Some b) (S b) = Inr (Some r)"
      by simp
    from alt show ?thesis
    proof
      assume "r = c \<and> (\<forall>x \<in> set cs. S x \<le> S c)"
      with True have "c # cs = [] @ r # cs \<and> S b < S r \<and>
          (\<forall>x \<in> set []. S x < S r) \<and> (\<forall>x \<in> set cs. S x \<le> S r)"
        by simp
      with res show ?thesis by blast
    next
      assume "\<exists>pre post. cs = pre @ r # post \<and> S c < S r \<and>
               (\<forall>x \<in> set pre. S x < S r) \<and> (\<forall>x \<in> set post. S x \<le> S r)"
      then obtain pre post where "cs = pre @ r # post" "S c < S r"
        "\<forall>x \<in> set pre. S x < S r" "\<forall>x \<in> set post. S x \<le> S r"
        by blast
      with True have "c # cs = (c # pre) @ r # post \<and> S b < S r \<and>
          (\<forall>x \<in> set (c # pre). S x < S r) \<and> (\<forall>x \<in> set post. S x \<le> S r)"
        by simp
      with res show ?thesis by blast
    qed
  next
    case False
    from Cons.IH [OF rest, of b] obtain r where
      run: "bottom_loop strips cs (Some b) (S b) = Inr (Some r)" and
      alt: "(r = b \<and> (\<forall>x \<in> set cs. S x \<le> S b)) \<or>
            (\<exists>pre post. cs = pre @ r # post \<and> S b < S r \<and>
               (\<forall>x \<in> set pre. S x < S r) \<and> (\<forall>x \<in> set post. S x \<le> S r))"
      by blast
    from run sc False have res: "bottom_loop strips (c # cs) (Some b) (S b) = Inr (Some r)"
      by simp
    from alt show ?thesis
    proof
      assume "r = b \<and> (\<forall>x \<in> set cs. S x \<le> S b)"
      with False have "r = b \<and> (\<forall>x \<in> set (c # cs). S x \<le> S b)"
        by simp
      with res show ?thesis by blast
    next
      assume "\<exists>pre post. cs = pre @ r # post \<and> S b < S r \<and>
               (\<forall>x \<in> set pre. S x < S r) \<and> (\<forall>x \<in> set post. S x \<le> S r)"
      then obtain pre post where "cs = pre @ r # post" "S b < S r"
        "\<forall>x \<in> set pre. S x < S r" "\<forall>x \<in> set post. S x \<le> S r"
        by blast
      with False have "c # cs = (c # pre) @ r # post \<and> S b < S r \<and>
          (\<forall>x \<in> set (c # pre). S x < S r) \<and> (\<forall>x \<in> set post. S x \<le> S r)"
        by simp
      with res show ?thesis by blast
    qed
  qed
qed

lemma bottom_loop_first_max:
  assumes "cs \<noteq> []" "\<forall>c \<in> set cs. best_match_score strips c = Inr (S c)"
    "\<forall>c \<in> set cs. 0 \<le> S c"
  shows "\<exists>r pre post. bottom_loop strips cs None (- 1) = Inr (Some r) \<and> cs = pre @ r # post \<and>
           (\<forall>c \<in> set pre. S c < S r) \<and> (\<forall>c \<in> set post. S c \<le> S r)"
proof -
  from assms obtain c cs' where cs: "cs = c # cs'"
    and sc: "best_match_score strips c = Inr (S c)" and pos: "0 \<le> S c"
    and rest: "\<forall>c \<in> set cs'. best_match_score strips c = Inr (S c)"
    by (cases cs) auto
  from bottom_loop_running [OF rest, of c] obtain r where
    run: "bottom_loop strips cs' (Some c) (S c) = Inr (Some r)" and
    alt: "(r = c \<and> (\<forall>x \<in> set cs'. S x \<le> S c)) \<or>
          (\<exists>pre post. cs' = pre @ r # post \<and> S c < S r \<and>
             (\<forall>x \<in> set pre. S x < S r) \<and> (\<forall>x \<in> set post. S x \<le> S r))"
    by blast
  from run sc pos cs have res: "bottom_loop strips cs None (- 1) = Inr (Some r)"
    by simp
  from alt show ?thesis
  proof
    assume "r = c \<and> (\<forall>x \<in> set cs'. S x \<le> S c)"
    with cs have "cs = [] @ r # cs' \<and> (\<forall>x \<in> set []. S x < S r) \<and> (\<forall>x \<in> set cs'. S x \<le> S r)"
      by simp
    with res show ?thesis by blast
  next
    assume "\<exists>pre post. cs' = pre @ r # post \<and> S c < S r \<and>
             (\<forall>x \<in> set pre. S x < S r) \<and> (\<forall>x \<in> set post. S x \<le> S r)"
    then obtain pre post where "cs' = pre @ r # post" "S c < S r"
      "\<forall>x \<in> set pre. S x < S r" "\<forall>x \<in> set post. S x \<le> S r"
      by blast
    with cs have "cs = (c # pre) @ r # post \<and>
        (\<forall>x \<in> set (c # pre). S x < S r) \<and> (\<forall>x \<in> set post. S x \<le> S r)"
      by simp
    with res show ?thesis by blast
  qed
qed

lemma two_different_other:
  assumes "\<exists>a \<in> set strips. \<exists>b \<in> set strips. a \<noteq> b"
  shows "\<exists>other \<in> set strips. other \<noteq> c"
  using assms by metis

text \<open>A list of at least two entries without repetition holds two different strips.\<close>

lemma distinct_two_different:
  assumes "2 \<le> length strips" and "distinct strips"
  shows "\<exists>a \<in> set strips. \<exists>b \<in> set strips. a \<noteq> b"
proof -
  from assms(1) obtain a b rest where "strips = a # b # rest"
    by (cases strips; cases "tl strips") auto
  with assms(2) have "a \<in> set strips" "b \<in> set strips" "a \<noteq> b"
    by auto
  then show ?thesis by blast
qed

text \<open>
  C3: for every list of at least two strips, find\_bottom\_strip returns a strip of maximal
  score, the score of a strip being the minimum rows\_comparison between its last row and
  the first row of every other strip; among the strips of maximal score it returns the
  first in iteration order: every strip before it in the list has a strictly smaller
  score, every strip after it has a score at most as large. The input is a set of strips:
  the list holds at least two different strips (in particular every list of length at
  least 2 without repetition), and every strip has a first and a last pixel row.
\<close>

theorem bottom_strip_first_maximin:
  assumes "\<exists>a \<in> set strips. \<exists>b \<in> set strips. a \<noteq> b"
    and "\<forall>s \<in> set strips. pixels (snd s) \<noteq> []"
  shows "\<exists>best pre post.
           find_bottom_strip strips = Inr (Some best) \<and>
           strips = pre @ best # post \<and>
           (\<forall>c \<in> set pre. spec_best_match_score strips c < spec_best_match_score strips best) \<and>
           (\<forall>c \<in> set post. spec_best_match_score strips c \<le> spec_best_match_score strips best)"
proof -
  from assms(1) have ne: "strips \<noteq> []" by auto
  from assms(1) have other: "\<exists>other \<in> set strips. other \<noteq> c" for c
    by (rule two_different_other)
  have sc: "\<forall>c \<in> set strips. best_match_score strips c = Inr (spec_best_match_score strips c)"
    using best_match_score_eq [OF assms(2) _ other] by blast
  have pos: "\<forall>c \<in> set strips. 0 \<le> spec_best_match_score strips c"
    using spec_best_match_score_nonneg [OF other] by blast
  from bottom_loop_first_max [OF ne sc pos] show ?thesis
    by (simp only: find_bottom_strip_def)
qed

theorem bottom_strip_first_maximin_witness:
  "(\<exists>a \<in> set [gray_strip 0 100 200, gray_strip 1 200 255, gray_strip 2 0 100].
      \<exists>b \<in> set [gray_strip 0 100 200, gray_strip 1 200 255, gray_strip 2 0 100]. a \<noteq> b) \<and>
   pixels (snd (gray_strip 0 100 200)) \<noteq> [] \<and> pixels (snd (gray_strip 1 200 255)) \<noteq> [] \<and>
   pixels (snd (gray_strip 2 0 100)) \<noteq> [] \<and>
   find_bottom_strip [gray_strip 0 100 200, gray_strip 1 200 255, gray_strip 2 0 100]
     = Inr (Some (gray_strip 1 200 255)) \<and>
   (\<exists>best pre post.
      find_bottom_strip [gray_strip 0 100 200, gray_strip 1 200 255, gray_strip 2 0 100]
        = Inr (Some best) \<and>
      [gray_strip 0 100 200, gray_strip 1 200 255, gray_strip 2 0 100] = pre @ best # post \<and>
      (\<forall>c \<in> set pre.
         spec_best_match_score [gray_strip 0 100 200, gray_strip 1 200 255, gray_strip 2 0 100] c
         < spec_best_match_score [gray_strip 0 100 200, gray_strip 1 200 255, gray_strip 2 0 100] best) \<and>
      (\<forall>c \<in> set post.
         spec_best_match_score [gray_strip 0 100 200, gray_strip 1 200 255, gray_strip 2 0 100] c
         \<le> spec_best_match_score [gray_strip 0 100 200, gray_strip 1 200 255, gray_strip 2 0 100] best))"
proof -
  have h1: "\<exists>a \<in> set [gray_strip 0 100 200, gray_strip 1 200 255, gray_strip 2 0 100].
      \<exists>b \<in> set [gray_strip 0 100 200, gray_strip 1 200 255, gray_strip 2 0 100]. a \<noteq> b"
  proof -
    have "gray_strip 0 100 200 \<noteq> gray_strip 1 200 255"
      by (simp add: gray_strip_def)
    moreover have "gray_strip 0 100 200
        \<in> set [gray_strip 0 100 200, gray_strip 1 200 255, gray_strip 2 0 100]"
      "gray_strip 1 200 255 \<in> set [gray_strip 0 100 200, gray_strip 1 200 255, gray_strip 2 0 100]"
      by simp_all
    ultimately show ?thesis by blast
  qed
  have h2: "\<forall>s \<in> set [gray_strip 0 100 200, gray_strip 1 200 255, gray_strip 2 0 100].
      pixels (snd s) \<noteq> []"
    by (simp add: gray_strip_def)
  have v: "find_bottom_strip [gray_strip 0 100 200, gray_strip 1 200 255, gray_strip 2 0 100]
     = Inr (Some (gray_strip 1 200 255))"
    by (simp add: find_bottom_strip_def best_match_score_def gray_strip_def pixel_diff_def)
  have h3: "pixels (snd (gray_strip 0 100 200)) \<noteq> [] \<and>
    pixels (snd (gray_strip 1 200 255)) \<noteq> [] \<and> pixels (snd (gray_strip 2 0 100)) \<noteq> []"
    by (simp add: gray_strip_def)
  from bottom_strip_first_maximin [OF h1 h2] h1 h3 v show ?thesis
    by blast
qed

section \<open>Properties of merge\_ordered\_strips\<close>

lemma copy_cols_run:
  assumes "r < length (pixels s)" and "\<forall>c \<in> set cols. c < length (pixels s ! r)"
    and "ch + r < length (pixels f)" and "\<forall>c \<in> set cols. c < length (pixels f ! (ch + r))"
  shows "copy_cols f s ch r cols
         = Inr (f\<lparr>pixels := (pixels f)[ch + r :=
                   fold (\<lambda>c row. row[c := pixels s ! r ! c]) cols (pixels f ! (ch + r))]\<rparr>)"
  using assms
proof (induction cols arbitrary: f)
  case Nil
  then show ?case by simp
next
  case (Cons c cols)
  let ?p = "pixels s ! r ! c"
  let ?f' = "f\<lparr>pixels := (pixels f)[ch + r := (pixels f ! (ch + r))[c := ?p]]\<rparr>"
  from Cons.prems have get: "get_pixel s r c = Inr ?p"
    by (simp add: get_pixel_def)
  from Cons.prems have set: "set_pixel f (ch + r) c ?p = Inr ?f'"
    by (simp add: set_pixel_def)
  from Cons.prems have row': "pixels ?f' ! (ch + r) = (pixels f ! (ch + r))[c := ?p]"
    by simp
  have "copy_cols ?f' s ch r cols
        = Inr (?f'\<lparr>pixels := (pixels ?f')[ch + r :=
                 fold (\<lambda>c row. row[c := pixels s ! r ! c]) cols (pixels ?f' ! (ch + r))]\<rparr>)"
  proof (rule Cons.IH)
    show "r < length (pixels s)" by (rule Cons.prems(1))
    show "\<forall>c \<in> set cols. c < length (pixels s ! r)" using Cons.prems(2) by simp
    show "ch + r < length (pixels ?f')" using Cons.prems(3) by simp
    show "\<forall>c \<in> set cols. c < length (pixels ?f' ! (ch + r))"
      using Cons.prems(3,4) by simp
  qed
  with get set row' show ?case by simp
qed

lemma fold_copy_row:
  "length row = length src \<Longrightarrow> n \<le> length src \<Longrightarrow>
   fold (\<lambda>c row. row[c := src ! c]) [0..<n] row = take n src @ drop n row"
proof (induction n)
  case 0
  show ?case by simp
next
  case (Suc n)
  then have n: "n < length src" "n < length row" by simp_all
  from Suc have "fold (\<lambda>c row. row[c := src ! c]) [0..<Suc n] row
                 = (take n src @ drop n row)[n := src ! n]"
    by simp
  also from n have "\<dots> = take n src @ (drop n row)[0 := src ! n]"
    by (simp add: list_update_append)
  also from n have "\<dots> = take n src @ src ! n # drop (Suc n) row"
    by (simp add: Cons_nth_drop_Suc [symmetric])
  also from n have "\<dots> = take (Suc n) src @ drop (Suc n) row"
    by (simp add: take_Suc_conv_app_nth)
  finally show ?case .
qed

lemma copy_cols_row:
  assumes "r < length (pixels s)" and "length (pixels s ! r) = get_width s"
    and "ch + r < length (pixels f)" and "length (pixels f ! (ch + r)) = get_width s"
  shows "copy_cols f s ch r [0..<get_width s]
         = Inr (f\<lparr>pixels := (pixels f)[ch + r := pixels s ! r]\<rparr>)"
proof -
  have "fold (\<lambda>c row. row[c := pixels s ! r ! c]) [0..<get_width s] (pixels f ! (ch + r))
        = pixels s ! r"
    using fold_copy_row [of "pixels f ! (ch + r)" "pixels s ! r" "get_width s"] assms(2,4)
    by simp
  moreover have "copy_cols f s ch r [0..<get_width s]
         = Inr (f\<lparr>pixels := (pixels f)[ch + r :=
                   fold (\<lambda>c row. row[c := pixels s ! r ! c]) [0..<get_width s]
                     (pixels f ! (ch + r))]\<rparr>)"
    using assms by (intro copy_cols_run) simp_all
  ultimately show ?thesis by simp
qed

lemma copy_rows_run:
  assumes "\<forall>r \<in> set rs. r < length (pixels s) \<and> length (pixels s ! r) = get_width s"
    and "\<forall>r \<in> set rs. ch + r < length (pixels f) \<and> length (pixels f ! (ch + r)) = get_width s"
  shows "copy_rows f s ch rs
         = Inr (f\<lparr>pixels := fold (\<lambda>r P. P[ch + r := pixels s ! r]) rs (pixels f)\<rparr>)"
  using assms
proof (induction rs arbitrary: f)
  case Nil
  show ?case by simp
next
  case (Cons r rs)
  let ?f' = "f\<lparr>pixels := (pixels f)[ch + r := pixels s ! r]\<rparr>"
  from Cons.prems have cols: "copy_cols f s ch r [0..<get_width s] = Inr ?f'"
    by (intro copy_cols_row) simp_all
  have "copy_rows ?f' s ch rs
        = Inr (?f'\<lparr>pixels := fold (\<lambda>r P. P[ch + r := pixels s ! r]) rs (pixels ?f')\<rparr>)"
  proof (rule Cons.IH)
    show "\<forall>r \<in> set rs. r < length (pixels s) \<and> length (pixels s ! r) = get_width s"
      using Cons.prems(1) by simp
    show "\<forall>r' \<in> set rs. ch + r' < length (pixels ?f') \<and>
            length (pixels ?f' ! (ch + r')) = get_width s"
      using Cons.prems by (auto simp: nth_list_update)
  qed
  with cols show ?case by simp
qed

lemma fold_copy_rows:
  "ch + h \<le> length P \<Longrightarrow> h \<le> length src \<Longrightarrow>
   fold (\<lambda>r P. P[ch + r := src ! r]) [0..<h] P = take ch P @ take h src @ drop (ch + h) P"
proof (induction h)
  case 0
  show ?case by simp
next
  case (Suc h)
  then have h: "h < length src" "ch + h < length P" by simp_all
  from Suc have "fold (\<lambda>r P. P[ch + r := src ! r]) [0..<Suc h] P
                 = (take ch P @ take h src @ drop (ch + h) P)[ch + h := src ! h]"
    by simp
  also from h have "\<dots> = take ch P @ take h src @ (drop (ch + h) P)[0 := src ! h]"
    by (simp add: list_update_append)
  also from h have "\<dots> = take ch P @ take h src @ src ! h # drop (Suc (ch + h)) P"
    by (simp add: Cons_nth_drop_Suc [symmetric])
  also from h have "\<dots> = take ch P @ take (Suc h) src @ drop (ch + Suc h) P"
    by (simp add: take_Suc_conv_app_nth)
  finally show ?case .
qed

lemma copy_rows_strip:
  assumes "wf_image s" and "ch + get_height s \<le> length (pixels f)"
    and "\<forall>row \<in> set (pixels f). length row = get_width s"
  shows "copy_rows f s ch [0..<get_height s]
         = Inr (f\<lparr>pixels := take ch (pixels f) @ pixels s @ drop (ch + get_height s) (pixels f)\<rparr>)"
proof -
  from assms(1) have len: "length (pixels s) = get_height s"
    and rows: "\<forall>row \<in> set (pixels s). length row = get_width s"
    by (simp_all add: wf_image_def get_height_def get_width_def)
  have "copy_rows f s ch [0..<get_height s]
         = Inr (f\<lparr>pixels := fold (\<lambda>r P. P[ch + r := pixels s ! r]) [0..<get_height s] (pixels f)\<rparr>)"
  proof (rule copy_rows_run)
    show "\<forall>r \<in> set [0..<get_height s]. r < length (pixels s) \<and> length (pixels s ! r) = get_width s"
      using len rows by simp
    show "\<forall>r \<in> set [0..<get_height s]. ch + r < length (pixels f) \<and>
            length (pixels f ! (ch + r)) = get_width s"
      using assms(2,3) by simp
  qed
  moreover have "fold (\<lambda>r P. P[ch + r := pixels s ! r]) [0..<get_height s] (pixels f)
      = take ch (pixels f) @ take (get_height s) (pixels s) @ drop (ch + get_height s) (pixels f)"
    using assms(2) len by (intro fold_copy_rows) simp_all
  ultimately show ?thesis using len by simp
qed

lemma copy_strips_run:
  assumes "\<forall>s \<in> set strips. wf_image (snd s) \<and> get_width (snd s) = w"
    and "ch + sum_list (map (\<lambda>s. get_height (snd s)) strips) \<le> length (pixels f)"
    and "\<forall>row \<in> set (pixels f). length row = w"
  shows "copy_strips f ch strips
         = Inr (f\<lparr>pixels := take ch (pixels f) @ concat (map (\<lambda>s. pixels (snd s)) strips)
                   @ drop (ch + sum_list (map (\<lambda>s. get_height (snd s)) strips)) (pixels f)\<rparr>)"
  using assms
proof (induction strips arbitrary: f ch)
  case Nil
  show ?case by simp
next
  case (Cons s strips)
  let ?h = "get_height (snd s)"
  let ?t = "sum_list (map (\<lambda>s. get_height (snd s)) strips)"
  let ?P = "take ch (pixels f) @ pixels (snd s) @ drop (ch + ?h) (pixels f)"
  let ?f' = "f\<lparr>pixels := ?P\<rparr>"
  from Cons.prems have wf: "wf_image (snd s)" and w: "get_width (snd s) = w"
    and fit: "ch + ?h + ?t \<le> length (pixels f)"
    by simp_all
  from wf have len: "length (pixels (snd s)) = ?h"
    and rows: "\<forall>row \<in> set (pixels (snd s)). length row = w"
    using w by (simp_all add: wf_image_def get_height_def get_width_def)
  have rows_f: "copy_rows f (snd s) ch [0..<?h] = Inr ?f'"
    using wf fit Cons.prems(3) w by (intro copy_rows_strip) simp_all
  have "copy_strips ?f' (ch + ?h) strips
        = Inr (?f'\<lparr>pixels := take (ch + ?h) (pixels ?f') @ concat (map (\<lambda>s. pixels (snd s)) strips)
                   @ drop (ch + ?h + ?t) (pixels ?f')\<rparr>)"
  proof (rule Cons.IH)
    show "\<forall>s \<in> set strips. wf_image (snd s) \<and> get_width (snd s) = w"
      using Cons.prems(1) by simp
    show "ch + ?h + ?t \<le> length (pixels ?f')"
      using fit len by simp
    show "\<forall>row \<in> set (pixels ?f'). length row = w"
      using Cons.prems(3) rows by (auto dest: in_set_takeD in_set_dropD)
  qed
  moreover have "take (ch + ?h) ?P = take ch (pixels f) @ pixels (snd s)"
    using fit len by simp
  moreover have "drop (ch + ?h + ?t) ?P = drop (ch + ?h + ?t) (pixels f)"
    using fit len by (simp add: add_ac)
  ultimately show ?case using rows_f by (simp add: add.assoc)
qed

lemma merge_ordered_strips_concat:
  assumes "ordered_strips \<noteq> []"
    and "\<forall>s \<in> set ordered_strips. wf_image (snd s)"
    and "\<forall>s \<in> set ordered_strips. get_width (snd s) = get_width (snd (hd ordered_strips))"
  shows "merge_ordered_strips fill ordered_strips
         = Inr \<lparr>width = get_width (snd (hd ordered_strips)),
                height = sum_list (map (\<lambda>s. get_height (snd s)) ordered_strips),
                pixels = concat (map (\<lambda>s. pixels (snd s)) ordered_strips)\<rparr>"
proof -
  let ?w = "get_width (snd (hd ordered_strips))"
  let ?t = "sum_list (map (\<lambda>s. get_height (snd s)) ordered_strips)"
  let ?f = "new_image fill ?w ?t"
  have "copy_strips ?f 0 ordered_strips
        = Inr (?f\<lparr>pixels := take 0 (pixels ?f) @ concat (map (\<lambda>s. pixels (snd s)) ordered_strips)
                   @ drop (0 + ?t) (pixels ?f)\<rparr>)"
  proof (rule copy_strips_run)
    show "\<forall>s \<in> set ordered_strips. wf_image (snd s) \<and> get_width (snd s) = ?w"
      using assms(2,3) by simp
    show "0 + ?t \<le> length (pixels ?f)"
      by (simp add: new_image_def)
    show "\<forall>row \<in> set (pixels ?f). length row = ?w"
      by (simp add: new_image_def)
  qed
  moreover from assms(1) obtain first rest where "ordered_strips = first # rest"
    by (cases ordered_strips) auto
  ultimately show ?thesis
    by (simp add: merge_ordered_strips_def new_image_def)
qed

lemma concat_nth_offset:
  assumes "i < length xss" and "r < length (xss ! i)"
  shows "concat xss ! (length (concat (take i xss)) + r) = xss ! i ! r"
proof -
  from assms(1) have "xss = take i xss @ xss ! i # drop (Suc i) xss"
    by (rule id_take_nth_drop)
  then have "concat xss = concat (take i xss) @ xss ! i @ concat (drop (Suc i) xss)"
    by (metis concat.simps(2) concat_append)
  with assms(2) show ?thesis
    by (simp add: nth_append)
qed

lemma length_concat_pixels:
  assumes "\<forall>s \<in> set strips. wf_image (snd s)"
  shows "length (concat (map (\<lambda>s. pixels (snd s)) strips))
         = sum_list (map (\<lambda>s. get_height (snd s)) strips)"
  using assms by (induction strips) (simp_all add: wf_image_def get_height_def)

lemma concat_pixels_nth:
  assumes wf: "\<forall>s \<in> set strips. wf_image (snd s)"
    and i: "i < length strips" and r: "r < get_height (snd (strips ! i))"
  shows "sum_list (map (\<lambda>s. get_height (snd s)) (take i strips)) + r
           < length (concat (map (\<lambda>s. pixels (snd s)) strips))"
    and "concat (map (\<lambda>s. pixels (snd s)) strips)
           ! (sum_list (map (\<lambda>s. get_height (snd s)) (take i strips)) + r)
         = pixels (snd (strips ! i)) ! r"
proof -
  let ?xss = "map (\<lambda>s. pixels (snd s)) strips"
  from wf i have wfi: "wf_image (snd (strips ! i))" by simp
  with r have r': "r < length (?xss ! i)"
    using i by (simp add: wf_image_def get_height_def)
  from wf have "\<forall>s \<in> set (take i strips). wf_image (snd s)"
    by (auto dest: in_set_takeD)
  then have off: "length (concat (take i ?xss))
                  = sum_list (map (\<lambda>s. get_height (snd s)) (take i strips))"
    using length_concat_pixels [of "take i strips"] by (simp add: take_map)
  from i have "?xss = take i ?xss @ ?xss ! i # drop (Suc i) ?xss"
    by (intro id_take_nth_drop) simp
  then have "concat ?xss = concat (take i ?xss) @ ?xss ! i @ concat (drop (Suc i) ?xss)"
    by (metis concat.simps(2) concat_append)
  then have "length (concat ?xss)
             = length (concat (take i ?xss)) + length (?xss ! i)
               + length (concat (drop (Suc i) ?xss))"
    by (metis length_append add.assoc)
  with r' off show "sum_list (map (\<lambda>s. get_height (snd s)) (take i strips)) + r
           < length (concat (map (\<lambda>s. pixels (snd s)) strips))"
    by linarith
  from concat_nth_offset [of i ?xss r] i r' off
  show "concat ?xss ! (sum_list (map (\<lambda>s. get_height (snd s)) (take i strips)) + r)
         = pixels (snd (strips ! i)) ! r"
    by simp
qed

text \<open>
  C2: for every non-empty list of strips of equal width (each a well-formed image: as many
  rows as its height, every row as long as its width), merge\_ordered\_strips returns an
  image whose width is the first strip's width, which is also the maximum strip width,
  whose height is the sum of the strip heights, and in which the pixel at row
  \<open>off_i + r\<close>, column \<open>c\<close> is the pixel of strip \<open>i\<close> at row \<open>r\<close>, column \<open>c\<close>, for
  every valid \<open>r\<close> and \<open>c\<close>, \<open>off_i\<close> being the sum of the heights of the strips
  before strip \<open>i\<close>.
\<close>

theorem merge_ordered_strips_correct:
  assumes "ordered_strips \<noteq> []"
    and "\<forall>s \<in> set ordered_strips. wf_image (snd s)"
    and "\<forall>s \<in> set ordered_strips. get_width (snd s) = get_width (snd (hd ordered_strips))"
  shows "\<exists>out. merge_ordered_strips fill ordered_strips = Inr out \<and>
           get_width out = get_width (snd (hd ordered_strips)) \<and>
           get_width out = Max (set (map (\<lambda>s. get_width (snd s)) ordered_strips)) \<and>
           get_height out = sum_list (map (\<lambda>s. get_height (snd s)) ordered_strips) \<and>
           (\<forall>i < length ordered_strips.
              \<forall>r < get_height (snd (ordered_strips ! i)).
                \<forall>c < get_width (snd (ordered_strips ! i)).
                  \<exists>p. get_pixel (snd (ordered_strips ! i)) r c = Inr p \<and>
                      get_pixel out
                        (sum_list (map (\<lambda>s. get_height (snd s)) (take i ordered_strips)) + r) c
                      = Inr p)"
proof -
  let ?w = "get_width (snd (hd ordered_strips))"
  let ?out = "\<lparr>width = ?w,
               height = sum_list (map (\<lambda>s. get_height (snd s)) ordered_strips),
               pixels = concat (map (\<lambda>s. pixels (snd s)) ordered_strips)\<rparr>"
  have run: "merge_ordered_strips fill ordered_strips = Inr ?out"
    using assms by (rule merge_ordered_strips_concat)
  have "set (map (\<lambda>s. get_width (snd s)) ordered_strips) = {?w}"
    using assms(1,3) by (cases ordered_strips) auto
  then have mx: "Max (set (map (\<lambda>s. get_width (snd s)) ordered_strips)) = ?w"
    by simp
  have px: "\<exists>p. get_pixel (snd (ordered_strips ! i)) r c = Inr p \<and>
              get_pixel ?out
                (sum_list (map (\<lambda>s. get_height (snd s)) (take i ordered_strips)) + r) c = Inr p"
    if i: "i < length ordered_strips" and r: "r < get_height (snd (ordered_strips ! i))"
      and c: "c < get_width (snd (ordered_strips ! i))" for i r c
  proof -
    let ?s = "snd (ordered_strips ! i)"
    from assms(2) i have wfi: "wf_image ?s" by simp
    from wfi r have r': "r < length (pixels ?s)"
      by (simp add: wf_image_def get_height_def)
    with wfi c have c': "c < length (pixels ?s ! r)"
      by (simp add: wf_image_def get_width_def)
    from r' c' have src: "get_pixel ?s r c = Inr (pixels ?s ! r ! c)"
      by (simp add: get_pixel_def)
    from concat_pixels_nth [OF assms(2) i r] r' c'
    have "get_pixel ?out
            (sum_list (map (\<lambda>s. get_height (snd s)) (take i ordered_strips)) + r) c
          = Inr (pixels ?s ! r ! c)"
      by (simp add: get_pixel_def)
    with src show ?thesis by blast
  qed
  from run mx px show ?thesis
    by (auto simp: get_width_def get_height_def)
qed

theorem merge_ordered_strips_correct_witness:
  "[gray_strip 0 0 10, gray_strip 1 20 30] \<noteq> [] \<and>
   wf_image (snd (gray_strip 0 0 10)) \<and> wf_image (snd (gray_strip 1 20 30)) \<and>
   get_width (snd (gray_strip 0 0 10)) = get_width (snd (gray_strip 1 20 30)) \<and>
   merge_ordered_strips (Pixel 0 0 0) [gray_strip 0 0 10, gray_strip 1 20 30]
     = Inr \<lparr>width = 2, height = 4,
            pixels = [[Pixel 0 0 0, Pixel 0 0 0], [Pixel 10 10 10, Pixel 10 10 10],
                      [Pixel 20 20 20, Pixel 20 20 20], [Pixel 30 30 30, Pixel 30 30 30]]\<rparr> \<and>
   (\<exists>out. merge_ordered_strips (Pixel 0 0 0) [gray_strip 0 0 10, gray_strip 1 20 30] = Inr out \<and>
       get_width out = 2 \<and> get_height out = 4 \<and>
       get_pixel out 3 1 = get_pixel (snd (gray_strip 1 20 30)) 1 1)"
proof -
  let ?strips = "[gray_strip 0 0 10, gray_strip 1 20 30]"
  have h1: "?strips \<noteq> []" by simp
  have wf: "wf_image (snd (gray_strip 0 0 10)) \<and> wf_image (snd (gray_strip 1 20 30))"
    by (simp add: wf_image_def gray_strip_def)
  then have h2: "\<forall>s \<in> set ?strips. wf_image (snd s)" by simp
  have w: "get_width (snd (gray_strip 0 0 10)) = get_width (snd (gray_strip 1 20 30))"
    by (simp add: get_width_def gray_strip_def)
  then have h3: "\<forall>s \<in> set ?strips. get_width (snd s) = get_width (snd (hd ?strips))" by simp
  have v: "merge_ordered_strips (Pixel 0 0 0) ?strips
     = Inr \<lparr>width = 2, height = 4,
            pixels = [[Pixel 0 0 0, Pixel 0 0 0], [Pixel 10 10 10, Pixel 10 10 10],
                      [Pixel 20 20 20, Pixel 20 20 20], [Pixel 30 30 30, Pixel 30 30 30]]\<rparr>"
    by (simp add: merge_ordered_strips_def new_image_def gray_strip_def get_width_def
        get_height_def get_pixel_def set_pixel_def upt_rec numeral_2_eq_2 numeral_3_eq_3)
  from merge_ordered_strips_correct [OF h1 h2 h3, of "Pixel 0 0 0"] obtain out where
    out: "merge_ordered_strips (Pixel 0 0 0) ?strips = Inr out"
      "get_width out = get_width (snd (hd ?strips))"
      "get_height out = sum_list (map (\<lambda>s. get_height (snd s)) ?strips)"
      "\<forall>i < length ?strips. \<forall>r < get_height (snd (?strips ! i)).
         \<forall>c < get_width (snd (?strips ! i)).
           \<exists>p. get_pixel (snd (?strips ! i)) r c = Inr p \<and>
               get_pixel out (sum_list (map (\<lambda>s. get_height (snd s)) (take i ?strips)) + r) c
               = Inr p"
    by blast
  have "\<exists>p. get_pixel (snd (?strips ! 1)) 1 1 = Inr p \<and>
          get_pixel out (sum_list (map (\<lambda>s. get_height (snd s)) (take 1 ?strips)) + 1) 1 = Inr p"
    by (rule out(4) [rule_format]) (simp_all add: gray_strip_def get_height_def get_width_def)
  then have "\<exists>p. get_pixel (snd (gray_strip 1 20 30)) 1 1 = Inr p \<and> get_pixel out 3 1 = Inr p"
    by (simp add: gray_strip_def get_height_def)
  then have "get_pixel out 3 1 = get_pixel (snd (gray_strip 1 20 30)) 1 1"
    by auto
  moreover from out(2,3) have "get_width out = 2" "get_height out = 4"
    by (simp_all add: gray_strip_def get_height_def get_width_def)
  ultimately show ?thesis using h1 wf w v out(1) by blast
qed

section \<open>Properties of build\_from\_bottom\<close>

lemma ll_repr_LinkedList: "ll_repr (LinkedList s) [s]"
  by (simp add: ll_repr_def LinkedList_def Node_def)

lemma ll_repr_prepend:
  assumes "ll_repr l ys"
  shows "ll_repr (prepend l s) (s # ys)"
proof -
  let ?n = "length ys"
  let ?new = "(Node s)\<lparr>nxt := Some (head l)\<rparr>"
  let ?heap1 = "nodes l @ [?new]"
  let ?heap2 = "?heap1[head l := (?heap1 ! head l)\<lparr>prev := Some ?n\<rparr>]"
  from assms have ne: "ys \<noteq> []" and len: "length (nodes l) = ?n" and hd: "head l = ?n - 1"
    and old: "\<And>k. k < ?n \<Longrightarrow> strip (nodes l ! k) = rev ys ! k \<and>
                nxt (nodes l ! k) = (if k = 0 then None else Some (k - 1))"
    by (simp_all add: ll_repr_def)
  from ne have pos: "0 < ?n" by simp
  have pre: "prepend l s = \<lparr>nodes = ?heap2, head = ?n, tail = tail l\<rparr>"
    by (simp add: prepend_def Let_def len)
  have node: "strip (?heap2 ! k) = rev (s # ys) ! k \<and>
              nxt (?heap2 ! k) = (if k = 0 then None else Some (k - 1))"
    if k: "k < Suc ?n" for k
  proof (cases "k = ?n")
    case True
    from pos hd have "head l \<noteq> ?n" by linarith
    then have "?heap2 ! ?n = ?heap1 ! ?n"
      by simp
    also have "\<dots> = ?new"
      using nth_append_length [of "nodes l" ?new "[]"] by (simp add: len)
    finally have "?heap2 ! k = ?new"
      using True by simp
    with True pos hd show ?thesis
      by (simp add: Node_def nth_append)
  next
    case False
    with k have kn: "k < ?n" by simp
    show ?thesis
    proof (cases "k = head l")
      case True
      with kn len have "?heap2 ! k = (nodes l ! k)\<lparr>prev := Some ?n\<rparr>"
        by (simp add: nth_append)
      with old [OF kn] kn show ?thesis
        by (simp add: nth_append)
    next
      case False
      with kn len have "?heap2 ! k = nodes l ! k"
        by (simp add: nth_append)
      with old [OF kn] kn show ?thesis
        by (simp add: nth_append)
    qed
  qed
  from pre len node show ?thesis
    by (simp add: ll_repr_def)
qed

lemma walk_down:
  assumes "\<forall>j \<le> k. nxt (heap ! j) = (if j = 0 then None else Some (j - 1))"
  shows "walk heap (Some k) acc = Some (acc @ rev (map (\<lambda>j. strip (heap ! j)) [0..<Suc k]))"
  using assms
proof (induction k arbitrary: acc)
  case 0
  then have "nxt (heap ! 0) = None" by simp
  then show ?case
    by (simp add: walk.simps)
next
  case (Suc k)
  then have nx: "nxt (heap ! Suc k) = Some k" by simp
  from Suc.prems have "\<forall>j \<le> k. nxt (heap ! j) = (if j = 0 then None else Some (j - 1))"
    by simp
  from Suc.IH [OF this, of "acc @ [strip (heap ! Suc k)]"]
  have "walk heap (Some k) (acc @ [strip (heap ! Suc k)])
        = Some (acc @ strip (heap ! Suc k) # rev (map (\<lambda>j. strip (heap ! j)) [0..<Suc k]))"
    by simp
  moreover have "walk heap (Some (Suc k)) acc = walk heap (Some k) (acc @ [strip (heap ! Suc k)])"
    by (subst walk.simps) (simp add: nx)
  ultimately show ?case by simp
qed

lemma ll_repr_to_list:
  assumes "ll_repr l ys"
  shows "to_list l = Some ys"
proof -
  let ?n = "length ys"
  from assms have ne: "ys \<noteq> []" and hd: "head l = ?n - 1"
    and old: "\<And>k. k < ?n \<Longrightarrow> strip (nodes l ! k) = rev ys ! k \<and>
                nxt (nodes l ! k) = (if k = 0 then None else Some (k - 1))"
    by (simp_all add: ll_repr_def)
  from ne have suc: "Suc (?n - 1) = ?n" by simp
  have "\<forall>j \<le> ?n - 1. nxt (nodes l ! j) = (if j = 0 then None else Some (j - 1))"
  proof (intro allI impI)
    fix j
    assume "j \<le> ?n - 1"
    with suc have "j < ?n" by linarith
    from old [OF this] show "nxt (nodes l ! j) = (if j = 0 then None else Some (j - 1))"
      by simp
  qed
  then have "walk (nodes l) (Some (?n - 1)) []
             = Some ([] @ rev (map (\<lambda>j. strip (nodes l ! j)) [0..<Suc (?n - 1)]))"
    by (rule walk_down)
  then have w: "walk (nodes l) (Some (?n - 1)) []
                = Some (rev (map (\<lambda>j. strip (nodes l ! j)) [0..<?n]))"
    by (simp only: suc append_Nil)
  have "map (\<lambda>j. strip (nodes l ! j)) [0..<?n] = map (\<lambda>j. rev ys ! j) [0..<?n]"
    using old by simp
  also have "\<dots> = rev ys"
    using map_nth [of "rev ys"] by simp
  finally have "rev (map (\<lambda>j. strip (nodes l ! j)) [0..<?n]) = ys"
    by simp
  with w hd show ?thesis
    by (simp only: to_list_def)
qed

lemma ll_repr_head:
  assumes "ll_repr l ys"
  shows "strip (nodes l ! head l) = hd ys"
proof -
  from assms have ne: "ys \<noteq> []" and hd: "head l = length ys - 1"
    and k: "strip (nodes l ! (length ys - 1)) = rev ys ! (length ys - 1)"
    by (simp_all add: ll_repr_def)
  from ne have "rev ys ! (length ys - 1) = hd ys"
    by (simp add: rev_nth hd_conv_nth)
  with hd k show ?thesis by simp
qed

lemma upwards_loop_member:
  "upwards_loop row cs best bd = Inr (Some r) \<Longrightarrow> r \<in> set cs \<or> best = Some r"
proof (induction cs arbitrary: best bd)
  case Nil
  then show ?case by simp
next
  case (Cons c cs)
  from Cons.prems have rows: "pixels (snd c) \<noteq> []"
    by (auto split: if_splits)
  let ?d = "rows_comparison row (last (pixels (snd c)))"
  show ?case
  proof (cases "less_distance ?d bd")
    case True
    with Cons.prems rows have "upwards_loop row cs (Some c) (Finite ?d) = Inr (Some r)"
      by simp
    from Cons.IH [OF this] show ?thesis by auto
  next
    case False
    with Cons.prems rows have "upwards_loop row cs best bd = Inr (Some r)"
      by simp
    from Cons.IH [OF this] show ?thesis by auto
  qed
qed

lemma find_most_similar_member:
  assumes "find_most_similar_strip_for_upwards cur pool = Inr (Some r)"
  shows "r \<in> set pool"
proof -
  from assms obtain row rows where "pixels (snd cur) = row # rows"
    by (cases "pixels (snd cur)") (auto simp: find_most_similar_strip_for_upwards_def)
  with assms have "upwards_loop row pool None Infinity = Inr (Some r)"
    by (simp add: find_most_similar_strip_for_upwards_def)
  from upwards_loop_member [OF this] show ?thesis by simp
qed

lemma find_most_similar_returns:
  assumes "pixels (snd cur) \<noteq> []" and "pool \<noteq> []" and "\<forall>c \<in> set pool. pixels (snd c) \<noteq> []"
  shows "\<exists>r. find_most_similar_strip_for_upwards cur pool = Inr (Some r) \<and> r \<in> set pool"
proof -
  from assms(1) obtain row rows where px: "pixels (snd cur) = row # rows"
    by (cases "pixels (snd cur)") auto
  from upwards_loop_first_min [OF assms(2,3), of row] obtain r where
    "upwards_loop row pool None Infinity = Inr (Some r)"
    by blast
  with px have "find_most_similar_strip_for_upwards cur pool = Inr (Some r)"
    by (simp add: find_most_similar_strip_for_upwards_def)
  with find_most_similar_member [OF this] show ?thesis by blast
qed

lemma build_loop_Nil: "build_loop [] l = ([], Inr l)"
  by (subst build_loop.simps) simp

lemma build_loop_step:
  assumes "pool \<noteq> []"
    and "find_most_similar_strip_for_upwards (strip (nodes l ! head l)) pool = Inr (Some r)"
  shows "build_loop pool l = build_loop (remove1 r pool) (prepend l r)"
proof -
  from assms(2) have "r \<in> set pool" by (rule find_most_similar_member)
  then have "list_remove r pool = Inr (remove1 r pool)"
    by (simp add: list_remove_def)
  with assms show ?thesis
    by (subst build_loop.simps) simp
qed

lemma build_loop_places_all:
  assumes "ll_repr l ys" and "\<forall>s \<in> set pool. pixels (snd s) \<noteq> []"
    and "\<forall>s \<in> set ys. pixels (snd s) \<noteq> []"
  shows "\<exists>l' ys'. build_loop pool l = ([], Inr l') \<and> ll_repr l' (ys' @ ys) \<and>
           mset ys' = mset pool"
  using assms
proof (induction "length pool" arbitrary: pool l ys rule: less_induct)
  case less
  show ?case
  proof (cases "pool = []")
    case True
    with less.prems(1) have "build_loop pool l = ([], Inr l) \<and> ll_repr l ([] @ ys) \<and>
        mset [] = mset pool"
      by (simp add: build_loop_Nil)
    then show ?thesis by blast
  next
    case False
    from less.prems(1) have "ys \<noteq> []" by (simp add: ll_repr_def)
    with less.prems(3) have "pixels (snd (hd ys)) \<noteq> []" by simp
    from find_most_similar_returns [OF this False less.prems(2)] obtain r where
      r: "find_most_similar_strip_for_upwards (hd ys) pool = Inr (Some r)" "r \<in> set pool"
      by blast
    from r(1) have step: "build_loop pool l = build_loop (remove1 r pool) (prepend l r)"
      using False by (intro build_loop_step) (simp_all add: ll_repr_head [OF less.prems(1)])
    from r(2) have shorter: "length (remove1 r pool) < length pool"
      by (simp add: length_remove1) (metis length_pos_if_in_set diff_Suc_less)
    have "\<exists>l' ys'. build_loop (remove1 r pool) (prepend l r) = ([], Inr l') \<and>
            ll_repr l' (ys' @ r # ys) \<and> mset ys' = mset (remove1 r pool)"
    proof (rule less.hyps [OF shorter])
      show "ll_repr (prepend l r) (r # ys)"
        using less.prems(1) by (rule ll_repr_prepend)
      show "\<forall>s \<in> set (remove1 r pool). pixels (snd s) \<noteq> []"
        using less.prems(2) by (auto dest: notin_set_remove1)
      show "\<forall>s \<in> set (r # ys). pixels (snd s) \<noteq> []"
        using less.prems(2,3) r(2) by simp
    qed
    then obtain l' ys' where res: "build_loop (remove1 r pool) (prepend l r) = ([], Inr l')"
      "ll_repr l' (ys' @ r # ys)" "mset ys' = mset (remove1 r pool)"
      by blast
    from res(3) r(2) have "mset (ys' @ [r]) = mset pool" by simp
    moreover from res(2) have "ll_repr l' ((ys' @ [r]) @ ys)" by simp
    ultimately show ?thesis using step res(1) by metis
  qed
qed

lemma bottom_loop_member:
  "bottom_loop strips cs best w = Inr (Some r) \<Longrightarrow> r \<in> set cs \<or> best = Some r"
proof (induction cs arbitrary: best w)
  case Nil
  then show ?case by simp
next
  case (Cons c cs)
  from Cons.prems obtain sc where sc: "best_match_score strips c = Inr sc"
    by (cases "best_match_score strips c") auto
  show ?case
  proof (cases "sc > w")
    case True
    with Cons.prems sc have "bottom_loop strips cs (Some c) sc = Inr (Some r)"
      by simp
    from Cons.IH [OF this] show ?thesis by auto
  next
    case False
    with Cons.prems sc have "bottom_loop strips cs best w = Inr (Some r)"
      by simp
    from Cons.IH [OF this] show ?thesis by auto
  qed
qed

lemma bottom_loop_scored:
  "bottom_loop strips cs best w = Inr res \<Longrightarrow>
   \<forall>c \<in> set cs. \<exists>sc. best_match_score strips c = Inr sc"
proof (induction cs arbitrary: best w)
  case Nil
  show ?case by simp
next
  case (Cons c cs)
  from Cons.prems obtain sc where sc: "best_match_score strips c = Inr sc"
    by (cases "best_match_score strips c") auto
  show ?case
  proof (cases "sc > w")
    case True
    with Cons.prems sc have "bottom_loop strips cs (Some c) sc = Inr res"
      by simp
    from Cons.IH [OF this] sc show ?thesis by simp
  next
    case False
    with Cons.prems sc have "bottom_loop strips cs best w = Inr res"
      by simp
    from Cons.IH [OF this] sc show ?thesis by simp
  qed
qed

lemma best_match_score_rows:
  "best_match_score strips c = Inr sc \<Longrightarrow> pixels (snd c) \<noteq> []"
  by (auto simp: best_match_score_def split: if_splits)

lemma find_bottom_strip_success:
  assumes "find_bottom_strip xs = Inr (Some b)"
  shows "b \<in> set xs" and "\<forall>s \<in> set xs. pixels (snd s) \<noteq> []"
proof -
  from assms have run: "bottom_loop xs xs None (- 1) = Inr (Some b)"
    by (simp add: find_bottom_strip_def)
  from bottom_loop_member [OF run] show "b \<in> set xs" by simp
  from bottom_loop_scored [OF run] show "\<forall>s \<in> set xs. pixels (snd s) \<noteq> []"
    by (blast dest: best_match_score_rows)
qed

lemma build_from_bottom_success:
  assumes "find_bottom_strip xs = Inr (Some b)"
  shows "\<exists>ordered. build_from_bottom xs = Some ([], Inr ordered) \<and> mset ordered = mset xs"
proof -
  from find_bottom_strip_success [OF assms] have b: "b \<in> set xs"
    and rows: "\<forall>s \<in> set xs. pixels (snd s) \<noteq> []"
    by simp_all
  from b have rm: "list_remove b xs = Inr (remove1 b xs)"
    by (simp add: list_remove_def)
  have "\<exists>l' ys'. build_loop (remove1 b xs) (LinkedList b) = ([], Inr l') \<and>
          ll_repr l' (ys' @ [b]) \<and> mset ys' = mset (remove1 b xs)"
  proof (rule build_loop_places_all)
    show "ll_repr (LinkedList b) [b]" by (rule ll_repr_LinkedList)
    show "\<forall>s \<in> set (remove1 b xs). pixels (snd s) \<noteq> []"
      using rows by (auto dest: notin_set_remove1)
    show "\<forall>s \<in> set [b]. pixels (snd s) \<noteq> []"
      using rows b by simp
  qed
  then obtain l' ys' where loop: "build_loop (remove1 b xs) (LinkedList b) = ([], Inr l')"
    and repr: "ll_repr l' (ys' @ [b])" and perm: "mset ys' = mset (remove1 b xs)"
    by blast
  from repr have "to_list l' = Some (ys' @ [b])" by (rule ll_repr_to_list)
  with assms rm loop have "build_from_bottom xs = Some ([], Inr (ys' @ [b]))"
    by (simp add: build_from_bottom_def)
  moreover from perm b have "mset (ys' @ [b]) = mset xs" by simp
  ultimately show ?thesis by blast
qed

lemma build_from_bottom_failure:
  "find_bottom_strip xs = Inl e \<Longrightarrow> build_from_bottom xs = Some (xs, Inl e)"
  "find_bottom_strip xs = Inr None \<Longrightarrow> build_from_bottom xs = Some (xs, Inl ValueError)"
  by (simp_all add: build_from_bottom_def)

lemma build_from_bottom_outcome:
  "(\<exists>e. build_from_bottom xs = Some (xs, Inl e)) \<or>
   (\<exists>ordered. build_from_bottom xs = Some ([], Inr ordered) \<and> mset ordered = mset xs)"
proof (cases "find_bottom_strip xs")
  case (Inl e)
  then show ?thesis by (simp add: build_from_bottom_failure)
next
  case (Inr res)
  show ?thesis
  proof (cases res)
    case None
    with Inr show ?thesis by (simp add: build_from_bottom_failure)
  next
    case (Some b)
    with Inr build_from_bottom_success [of xs b] show ?thesis by simp
  qed
qed

lemma find_bottom_strip_returns:
  assumes "\<exists>a \<in> set strips. \<exists>b \<in> set strips. a \<noteq> b"
    and "\<forall>s \<in> set strips. pixels (snd s) \<noteq> []"
  shows "\<exists>best. find_bottom_strip strips = Inr (Some best)"
proof -
  from assms(1) have ne: "strips \<noteq> []" by auto
  from assms(1) have other: "\<exists>other \<in> set strips. other \<noteq> c" for c
    by (rule two_different_other)
  have sc: "\<forall>c \<in> set strips. best_match_score strips c = Inr (spec_best_match_score strips c)"
    using best_match_score_eq [OF assms(2) _ other] by blast
  have pos: "\<forall>c \<in> set strips. 0 \<le> spec_best_match_score strips c"
    using spec_best_match_score_nonneg [OF other] by blast
  from bottom_loop_first_max [OF ne sc pos] show ?thesis
    by (auto simp: find_bottom_strip_def)
qed

lemma build_from_bottom_returns:
  assumes "\<exists>a \<in> set xs. \<exists>b \<in> set xs. a \<noteq> b"
    and "\<forall>s \<in> set xs. pixels (snd s) \<noteq> []"
  shows "\<exists>ordered. build_from_bottom xs = Some ([], Inr ordered) \<and> mset ordered = mset xs"
proof -
  from find_bottom_strip_returns [OF assms] obtain best where
    "find_bottom_strip xs = Inr (Some best)"
    by blast
  then show ?thesis by (rule build_from_bottom_success)
qed

lemma find_bottom_strip_single:
  "find_bottom_strip [s] = Inl (if pixels (snd s) = [] then IndexError else ValueError)"
  by (simp add: find_bottom_strip_def best_match_score_def)

text \<open>
  C1: for every input list of at least two strips, build\_from\_bottom returns a list in
  which every strip of the input appears exactly as often as in the input, that is
  exactly once (no duplicates, no omissions); the early exit is not taken, because
  find\_most\_similar\_strip\_for\_upwards returns a candidate of the pool whenever the pool
  is not empty. The input is a set of strips: the list holds at least two different
  strips (in particular every list of length at least 2 without repetition), and every
  strip has a first and a last pixel row.
\<close>

theorem build_from_bottom_permutation:
  assumes "\<exists>a \<in> set image_strips. \<exists>b \<in> set image_strips. a \<noteq> b"
    and "\<forall>s \<in> set image_strips. pixels (snd s) \<noteq> []"
  shows "(\<exists>ordered. build_from_bottom image_strips = Some ([], Inr ordered) \<and>
            mset ordered = mset image_strips) \<and>
         (\<forall>current_top_strip pool.
            pixels (snd current_top_strip) \<noteq> [] \<longrightarrow> pool \<noteq> [] \<longrightarrow>
            (\<forall>c \<in> set pool. pixels (snd c) \<noteq> []) \<longrightarrow>
            (\<exists>r \<in> set pool.
               find_most_similar_strip_for_upwards current_top_strip pool = Inr (Some r)))"
proof
  show "\<exists>ordered. build_from_bottom image_strips = Some ([], Inr ordered) \<and>
          mset ordered = mset image_strips"
    using assms by (rule build_from_bottom_returns)
  show "\<forall>current_top_strip pool.
          pixels (snd current_top_strip) \<noteq> [] \<longrightarrow> pool \<noteq> [] \<longrightarrow>
          (\<forall>c \<in> set pool. pixels (snd c) \<noteq> []) \<longrightarrow>
          (\<exists>r \<in> set pool.
             find_most_similar_strip_for_upwards current_top_strip pool = Inr (Some r))"
    using find_most_similar_returns by blast
qed

theorem build_from_bottom_permutation_witness:
  "gray_strip 0 100 200 \<noteq> gray_strip 1 200 255 \<and>
   pixels (snd (gray_strip 0 100 200)) \<noteq> [] \<and> pixels (snd (gray_strip 1 200 255)) \<noteq> [] \<and>
   pixels (snd (gray_strip 2 0 100)) \<noteq> [] \<and>
   build_from_bottom [gray_strip 0 100 200, gray_strip 1 200 255, gray_strip 2 0 100]
     = Some ([], Inr [gray_strip 2 0 100, gray_strip 0 100 200, gray_strip 1 200 255]) \<and>
   (\<exists>ordered.
      build_from_bottom [gray_strip 0 100 200, gray_strip 1 200 255, gray_strip 2 0 100]
        = Some ([], Inr ordered) \<and>
      mset ordered = mset [gray_strip 0 100 200, gray_strip 1 200 255, gray_strip 2 0 100])"
proof -
  let ?xs = "[gray_strip 0 100 200, gray_strip 1 200 255, gray_strip 2 0 100]"
  have d: "gray_strip 0 100 200 \<noteq> gray_strip 1 200 255"
    by (simp add: gray_strip_def)
  have h1: "\<exists>a \<in> set ?xs. \<exists>b \<in> set ?xs. a \<noteq> b"
    by (intro bexI, rule d) simp_all
  have r: "pixels (snd (gray_strip 0 100 200)) \<noteq> [] \<and>
    pixels (snd (gray_strip 1 200 255)) \<noteq> [] \<and> pixels (snd (gray_strip 2 0 100)) \<noteq> []"
    by (simp add: gray_strip_def)
  then have h2: "\<forall>s \<in> set ?xs. pixels (snd s) \<noteq> []"
    by simp
  have v: "build_from_bottom ?xs
           = Some ([], Inr [gray_strip 2 0 100, gray_strip 0 100 200, gray_strip 1 200 255])"
    by (simp add: build_from_bottom_def find_bottom_strip_def best_match_score_def
        find_most_similar_strip_for_upwards_def list_remove_def build_loop.simps
        LinkedList_def Node_def prepend_def to_list_def walk.simps
        gray_strip_def pixel_diff_def)
  from build_from_bottom_permutation [OF h1 h2] d r v show ?thesis
    by blast
qed

text \<open>
  C5, as stated, fails: build\_from\_bottom has no bypass for a single strip. It calls
  find\_bottom\_strip, where \<^verbatim>\<open>min\<close> finds no other strip and raises ValueError.
\<close>

theorem build_single_strip_counterexample:
  "build_from_bottom [gray_strip 0 0 100] = Some ([gray_strip 0 0 100], Inl ValueError)"
  by (simp add: build_from_bottom_def find_bottom_strip_def best_match_score_def gray_strip_def)

text \<open>
  C5 (amended): for an input of exactly one strip, build\_from\_bottom does not bypass the
  selector and returns no list: find\_bottom\_strip raises ValueError (IndexError when the
  strip has no pixel row), and the caller's list keeps the strip. merge\_ordered\_strips
  applied to the list of that strip alone yields an image equal to the strip unchanged.
\<close>

theorem single_strip_build_raises_merge_copies:
  "build_from_bottom [s]
     = Some ([s], Inl (if pixels (snd s) = [] then IndexError else ValueError)) \<and>
   (wf_image (snd s) \<longrightarrow> merge_ordered_strips fill [s] = Inr (snd s))"
proof
  show "build_from_bottom [s]
     = Some ([s], Inl (if pixels (snd s) = [] then IndexError else ValueError))"
    using find_bottom_strip_single [of s] by (rule build_from_bottom_failure(1))
  show "wf_image (snd s) \<longrightarrow> merge_ordered_strips fill [s] = Inr (snd s)"
  proof
    assume "wf_image (snd s)"
    then have "merge_ordered_strips fill [s]
         = Inr \<lparr>width = get_width (snd (hd [s])),
                height = sum_list (map (\<lambda>s. get_height (snd s)) [s]),
                pixels = concat (map (\<lambda>s. pixels (snd s)) [s])\<rparr>"
      by (intro merge_ordered_strips_concat) simp_all
    then show "merge_ordered_strips fill [s] = Inr (snd s)"
      by (simp add: get_width_def get_height_def)
  qed
qed

theorem single_strip_build_raises_merge_copies_witness:
  "wf_image (snd (gray_strip 0 0 100)) \<and>
   build_from_bottom [gray_strip 0 0 100] = Some ([gray_strip 0 0 100], Inl ValueError) \<and>
   merge_ordered_strips (Pixel 0 0 0) [gray_strip 0 0 100] = Inr (snd (gray_strip 0 0 100))"
proof -
  have h: "wf_image (snd (gray_strip 0 0 100))"
    by (simp add: wf_image_def gray_strip_def)
  have p: "pixels (snd (gray_strip 0 0 100)) \<noteq> []"
    by (simp add: gray_strip_def)
  from single_strip_build_raises_merge_copies [of "gray_strip 0 0 100" "Pixel 0 0 0"] h p
  show ?thesis by simp
qed

text \<open>
  C10: build\_from\_bottom mutates its input list in place. Every strip placed into the
  ordered result is removed from the caller's list: after a run that returns a result
  the caller's list is empty and the result holds exactly the strips of the input (a run
  that raises leaves the caller's list as it was). All strips are placed, and the list is
  left empty, for every input of at least two strips: every list that holds at least two
  different strips, each with a first and a last pixel row.
\<close>

theorem build_from_bottom_empties_list:
  "(\<forall>rest ordered. build_from_bottom image_strips = Some (rest, Inr ordered) \<longrightarrow>
      rest = [] \<and> mset ordered = mset image_strips) \<and>
   (\<forall>rest e. build_from_bottom image_strips = Some (rest, Inl e) \<longrightarrow> rest = image_strips) \<and>
   ((\<exists>a \<in> set image_strips. \<exists>b \<in> set image_strips. a \<noteq> b) \<and>
    (\<forall>s \<in> set image_strips. pixels (snd s) \<noteq> []) \<longrightarrow>
    (\<exists>ordered. build_from_bottom image_strips = Some ([], Inr ordered)))"
proof (intro conjI)
  show "\<forall>rest ordered. build_from_bottom image_strips = Some (rest, Inr ordered) \<longrightarrow>
      rest = [] \<and> mset ordered = mset image_strips"
    using build_from_bottom_outcome [of image_strips] by auto
  show "\<forall>rest e. build_from_bottom image_strips = Some (rest, Inl e) \<longrightarrow> rest = image_strips"
    using build_from_bottom_outcome [of image_strips] by auto
  show "(\<exists>a \<in> set image_strips. \<exists>b \<in> set image_strips. a \<noteq> b) \<and>
    (\<forall>s \<in> set image_strips. pixels (snd s) \<noteq> []) \<longrightarrow>
    (\<exists>ordered. build_from_bottom image_strips = Some ([], Inr ordered))"
    using build_from_bottom_returns [of image_strips] by blast
qed

theorem build_from_bottom_empties_list_witness:
  "gray_strip 0 0 10 \<noteq> gray_strip 1 0 10 \<and>
   pixels (snd (gray_strip 0 0 10)) \<noteq> [] \<and> pixels (snd (gray_strip 1 0 10)) \<noteq> [] \<and>
   build_from_bottom [gray_strip 0 0 10, gray_strip 1 0 10]
     = Some ([], Inr [gray_strip 1 0 10, gray_strip 0 0 10]) \<and>
   (\<exists>ordered. build_from_bottom [gray_strip 0 0 10, gray_strip 1 0 10] = Some ([], Inr ordered))"
proof -
  let ?xs = "[gray_strip 0 0 10, gray_strip 1 0 10]"
  have d: "gray_strip 0 0 10 \<noteq> gray_strip 1 0 10"
    by (simp add: gray_strip_def)
  have h1: "\<exists>a \<in> set ?xs. \<exists>b \<in> set ?xs. a \<noteq> b"
    by (intro bexI, rule d) simp_all
  have r: "pixels (snd (gray_strip 0 0 10)) \<noteq> [] \<and> pixels (snd (gray_strip 1 0 10)) \<noteq> []"
    by (simp add: gray_strip_def)
  then have h2: "\<forall>s \<in> set ?xs. pixels (snd s) \<noteq> []"
    by simp
  have v: "build_from_bottom ?xs = Some ([], Inr [gray_strip 1 0 10, gray_strip 0 0 10])"
    by (simp add: build_from_bottom_def find_bottom_strip_def best_match_score_def
        find_most_similar_strip_for_upwards_def list_remove_def build_loop.simps
        LinkedList_def Node_def prepend_def to_list_def walk.simps
        gray_strip_def pixel_diff_def)
  from build_from_bottom_empties_list [of ?xs] h1 h2 d r v show ?thesis
    by blast
qed

section \<open>The pipeline is a function of the collection\<close>

text \<open>
  The functions never look at the identity of a strip except to compare two strips of
  the collection: mapping the strips one-to-one to other objects with the same contents
  (\<open>f\<close> below) maps the outcome of every function accordingly.
\<close>

lemma match_scores_retag:
  assumes same: "\<And>x. snd (f x) = snd x" and inj: "inj_on f (insert c (set others))"
  shows "match_scores row (f c) (map f others) = match_scores row c others"
  using inj
proof (induction others)
  case Nil
  show ?case by simp
next
  case (Cons other others)
  from Cons.prems have "inj_on f (insert c (set others))"
    by (rule inj_on_subset) auto
  then have IH: "match_scores row (f c) (map f others) = match_scores row c others"
    by (rule Cons.IH)
  have "f other = f c \<longleftrightarrow> other = c"
    using inj_on_eq_iff [OF Cons.prems, of other c] by simp
  with IH show ?case by (simp add: same split: list.splits)
qed

lemma best_match_score_retag:
  assumes same: "\<And>x. snd (f x) = snd x" and inj: "inj_on f (insert c (set strips))"
  shows "best_match_score (map f strips) (f c) = best_match_score strips c"
  using match_scores_retag [of f c strips "last (pixels (snd c))", OF same inj]
  by (simp add: best_match_score_def same)

lemma bottom_loop_retag:
  assumes same: "\<And>x. snd (f x) = snd x" and inj: "inj_on f (set strips)"
    and sub: "set cs \<subseteq> set strips"
  shows "bottom_loop (map f strips) (map f cs) (map_option f best) w
         = map_sum id (map_option f) (bottom_loop strips cs best w)"
  using sub
proof (induction cs arbitrary: best w)
  case Nil
  show ?case by simp
next
  case (Cons c cs)
  then have c: "c \<in> set strips" and sub': "set cs \<subseteq> set strips" by simp_all
  from c have "insert c (set strips) = set strips" by auto
  with inj have "inj_on f (insert c (set strips))" by simp
  then have sc: "best_match_score (map f strips) (f c) = best_match_score strips c"
    by (rule best_match_score_retag [OF same])
  show ?case
  proof (cases "best_match_score strips c")
    case (Inl e)
    with sc show ?thesis by simp
  next
    case (Inr score)
    with sc Cons.IH [OF sub', of "Some c" score] Cons.IH [OF sub', of best w]
    show ?thesis by simp
  qed
qed

lemma find_bottom_strip_retag:
  assumes "\<And>x. snd (f x) = snd x" and "inj_on f (set strips)"
  shows "find_bottom_strip (map f strips) = map_sum id (map_option f) (find_bottom_strip strips)"
  using bottom_loop_retag [of f strips strips None "- 1", OF assms]
  by (simp add: find_bottom_strip_def)

lemma upwards_loop_retag:
  assumes same: "\<And>x. snd (f x) = snd x"
  shows "upwards_loop row (map f cs) (map_option f best) bd
         = map_sum id (map_option f) (upwards_loop row cs best bd)"
proof (induction cs arbitrary: best bd)
  case Nil
  show ?case by simp
next
  case (Cons c cs)
  let ?d = "rows_comparison row (last (pixels (snd c)))"
  from Cons [of "Some c" "Finite ?d"] Cons [of best bd] show ?case
    by (simp add: same Let_def)
qed

lemma find_most_similar_retag:
  assumes same: "\<And>x. snd (f x) = snd x"
  shows "find_most_similar_strip_for_upwards (f cur) (map f pool)
         = map_sum id (map_option f) (find_most_similar_strip_for_upwards cur pool)"
  using upwards_loop_retag [of f _ pool None Infinity, OF same]
  by (simp add: find_most_similar_strip_for_upwards_def same split: list.splits)

lemma remove1_retag:
  assumes "inj_on f (insert x (set xs))"
  shows "remove1 (f x) (map f xs) = map f (remove1 x xs)"
  using assms
proof (induction xs)
  case Nil
  show ?case by simp
next
  case (Cons y xs)
  from Cons.prems have "inj_on f (insert x (set xs))"
    by (rule inj_on_subset) auto
  then have IH: "remove1 (f x) (map f xs) = map f (remove1 x xs)"
    by (rule Cons.IH)
  have "f x = f y \<longleftrightarrow> x = y"
    using inj_on_eq_iff [OF Cons.prems, of x y] by simp
  with IH show ?case by simp
qed

lemma build_loop_raise:
  assumes "pool \<noteq> []"
    and "find_most_similar_strip_for_upwards (strip (nodes l ! head l)) pool = Inl e"
  shows "build_loop pool l = (pool, Inl e)"
  using assms by (subst build_loop.simps) simp

lemma build_loop_break:
  assumes "pool \<noteq> []"
    and "find_most_similar_strip_for_upwards (strip (nodes l ! head l)) pool = Inr None"
  shows "build_loop pool l = (pool, Inr l)"
  using assms by (subst build_loop.simps) simp

lemma build_loop_retag:
  assumes same: "\<And>x. snd (f x) = snd x" and inj: "inj_on f (set pool)"
    and l: "ll_repr l ys" and l': "ll_repr l' (map f ys)"
  shows "\<exists>rest. (\<exists>e. build_loop pool l = (rest, Inl e) \<and>
                    build_loop (map f pool) l' = (map f rest, Inl e)) \<or>
               (\<exists>m m' zs. build_loop pool l = (rest, Inr m) \<and>
                    build_loop (map f pool) l' = (map f rest, Inr m') \<and>
                    ll_repr m zs \<and> ll_repr m' (map f zs))"
  using inj l l'
proof (induction "length pool" arbitrary: pool l l' ys rule: less_induct)
  case less
  show ?case
  proof (cases "pool = []")
    case True
    with less.prems(2,3) show ?thesis
      by (auto simp: build_loop_Nil)
  next
    case False
    then have ne': "map f pool \<noteq> []" by simp
    from less.prems(2) have ys: "ys \<noteq> []" by (simp add: ll_repr_def)
    have cur: "strip (nodes l ! head l) = hd ys"
      using less.prems(2) by (rule ll_repr_head)
    have "strip (nodes l' ! head l') = hd (map f ys)"
      using less.prems(3) by (rule ll_repr_head)
    with ys have cur': "strip (nodes l' ! head l') = f (hd ys)"
      by (simp add: hd_map)
    have sim: "find_most_similar_strip_for_upwards (f (hd ys)) (map f pool)
               = map_sum id (map_option f) (find_most_similar_strip_for_upwards (hd ys) pool)"
      by (rule find_most_similar_retag [OF same])
    show ?thesis
    proof (cases "find_most_similar_strip_for_upwards (hd ys) pool")
      case (Inl e)
      with sim have "find_most_similar_strip_for_upwards (f (hd ys)) (map f pool) = Inl e"
        by simp
      with ne' cur' have "build_loop (map f pool) l' = (map f pool, Inl e)"
        by (intro build_loop_raise) simp_all
      moreover from Inl False cur have "build_loop pool l = (pool, Inl e)"
        by (intro build_loop_raise) simp_all
      ultimately show ?thesis by blast
    next
      case (Inr res)
      show ?thesis
      proof (cases res)
        case None
        with Inr sim have "find_most_similar_strip_for_upwards (f (hd ys)) (map f pool) = Inr None"
          by simp
        with ne' cur' have "build_loop (map f pool) l' = (map f pool, Inr l')"
          by (intro build_loop_break) simp_all
        moreover from Inr None False cur have "build_loop pool l = (pool, Inr l)"
          by (intro build_loop_break) simp_all
        ultimately show ?thesis using less.prems(2,3) by blast
      next
        case (Some r)
        with Inr have found: "find_most_similar_strip_for_upwards (hd ys) pool = Inr (Some r)"
          by simp
        then have r: "r \<in> set pool" by (rule find_most_similar_member)
        from found sim have found':
          "find_most_similar_strip_for_upwards (f (hd ys)) (map f pool) = Inr (Some (f r))"
          by simp
        from r have "insert r (set pool) = set pool" by auto
        with less.prems(1) have "inj_on f (insert r (set pool))" by simp
        then have rm: "remove1 (f r) (map f pool) = map f (remove1 r pool)"
          by (rule remove1_retag)
        from found False cur
        have step: "build_loop pool l = build_loop (remove1 r pool) (prepend l r)"
          by (intro build_loop_step) simp_all
        from found' ne' cur' rm
        have step': "build_loop (map f pool) l'
                     = build_loop (map f (remove1 r pool)) (prepend l' (f r))"
          using build_loop_step [of "map f pool" l' "f r"] by simp
        from r have shorter: "length (remove1 r pool) < length pool"
          by (simp add: length_remove1) (metis length_pos_if_in_set diff_Suc_less)
        have "\<exists>rest. (\<exists>e. build_loop (remove1 r pool) (prepend l r) = (rest, Inl e) \<and>
                    build_loop (map f (remove1 r pool)) (prepend l' (f r)) = (map f rest, Inl e)) \<or>
               (\<exists>m m' zs. build_loop (remove1 r pool) (prepend l r) = (rest, Inr m) \<and>
                    build_loop (map f (remove1 r pool)) (prepend l' (f r)) = (map f rest, Inr m') \<and>
                    ll_repr m zs \<and> ll_repr m' (map f zs))"
        proof (rule less.hyps [OF shorter])
          show "inj_on f (set (remove1 r pool))"
            using less.prems(1) by (rule inj_on_subset) (rule set_remove1_subset)
          show "ll_repr (prepend l r) (r # ys)"
            using less.prems(2) by (rule ll_repr_prepend)
          show "ll_repr (prepend l' (f r)) (map f (r # ys))"
            using ll_repr_prepend [OF less.prems(3), of "f r"] by simp
        qed
        with step step' show ?thesis by simp
      qed
    qed
  qed
qed

lemma build_from_bottom_retag:
  assumes same: "\<And>x. snd (f x) = snd x" and inj: "inj_on f (set xs)"
  shows "(\<exists>e. build_from_bottom xs = Some (xs, Inl e) \<and>
              build_from_bottom (map f xs) = Some (map f xs, Inl e)) \<or>
         (\<exists>ordered. build_from_bottom xs = Some ([], Inr ordered) \<and>
              build_from_bottom (map f xs) = Some ([], Inr (map f ordered)))"
proof (cases "find_bottom_strip xs")
  case (Inl e)
  then have "find_bottom_strip (map f xs) = Inl e"
    by (simp add: find_bottom_strip_retag [OF same inj])
  with Inl show ?thesis
    by (simp add: build_from_bottom_failure)
next
  case (Inr res)
  show ?thesis
  proof (cases res)
    case None
    with Inr have "find_bottom_strip (map f xs) = Inr None"
      by (simp add: find_bottom_strip_retag [OF same inj])
    with Inr None show ?thesis
      by (simp add: build_from_bottom_failure)
  next
    case (Some b)
    with Inr have fb: "find_bottom_strip xs = Inr (Some b)" by simp
    then have fb': "find_bottom_strip (map f xs) = Inr (Some (f b))"
      by (simp add: find_bottom_strip_retag [OF same inj])
    from find_bottom_strip_success [OF fb] have b: "b \<in> set xs" by simp
    then have rm: "list_remove b xs = Inr (remove1 b xs)"
      by (simp add: list_remove_def)
    from b have "insert b (set xs) = set xs" by auto
    with inj have "inj_on f (insert b (set xs))" by simp
    then have "remove1 (f b) (map f xs) = map f (remove1 b xs)"
      by (rule remove1_retag)
    with b have rm': "list_remove (f b) (map f xs) = Inr (map f (remove1 b xs))"
      by (simp add: list_remove_def)
    from build_from_bottom_success [OF fb] obtain ordered where
      run: "build_from_bottom xs = Some ([], Inr ordered)"
      by blast
    have "\<exists>rest. (\<exists>e. build_loop (remove1 b xs) (LinkedList b) = (rest, Inl e) \<and>
                    build_loop (map f (remove1 b xs)) (LinkedList (f b)) = (map f rest, Inl e)) \<or>
               (\<exists>m m' zs. build_loop (remove1 b xs) (LinkedList b) = (rest, Inr m) \<and>
                    build_loop (map f (remove1 b xs)) (LinkedList (f b)) = (map f rest, Inr m') \<and>
                    ll_repr m zs \<and> ll_repr m' (map f zs))"
    proof (rule build_loop_retag [OF same])
      show "inj_on f (set (remove1 b xs))"
        using inj by (rule inj_on_subset) (rule set_remove1_subset)
      show "ll_repr (LinkedList b) [b]" by (rule ll_repr_LinkedList)
      show "ll_repr (LinkedList (f b)) (map f [b])"
        using ll_repr_LinkedList [of "f b"] by simp
    qed
    then obtain rest where
      "(\<exists>e. build_loop (remove1 b xs) (LinkedList b) = (rest, Inl e) \<and>
            build_loop (map f (remove1 b xs)) (LinkedList (f b)) = (map f rest, Inl e)) \<or>
       (\<exists>m m' zs. build_loop (remove1 b xs) (LinkedList b) = (rest, Inr m) \<and>
            build_loop (map f (remove1 b xs)) (LinkedList (f b)) = (map f rest, Inr m') \<and>
            ll_repr m zs \<and> ll_repr m' (map f zs))"
      by blast
    then show ?thesis
    proof
      assume "\<exists>e. build_loop (remove1 b xs) (LinkedList b) = (rest, Inl e) \<and>
            build_loop (map f (remove1 b xs)) (LinkedList (f b)) = (map f rest, Inl e)"
      then obtain e where "build_loop (remove1 b xs) (LinkedList b) = (rest, Inl e)"
        by blast
      with fb rm have "build_from_bottom xs = Some (rest, Inl e)"
        by (simp add: build_from_bottom_def)
      with run show ?thesis by simp
    next
      assume "\<exists>m m' zs. build_loop (remove1 b xs) (LinkedList b) = (rest, Inr m) \<and>
            build_loop (map f (remove1 b xs)) (LinkedList (f b)) = (map f rest, Inr m') \<and>
            ll_repr m zs \<and> ll_repr m' (map f zs)"
      then obtain m m' zs where loop: "build_loop (remove1 b xs) (LinkedList b) = (rest, Inr m)"
        and loop': "build_loop (map f (remove1 b xs)) (LinkedList (f b)) = (map f rest, Inr m')"
        and m: "ll_repr m zs" and m': "ll_repr m' (map f zs)"
        by blast
      from m have "to_list m = Some zs" by (rule ll_repr_to_list)
      with fb rm loop have "build_from_bottom xs = Some (rest, Inr zs)"
        by (simp add: build_from_bottom_def)
      with run have eq: "rest = []" "zs = ordered" by simp_all
      from m' have "to_list m' = Some (map f zs)" by (rule ll_repr_to_list)
      with fb' rm' loop' have "build_from_bottom (map f xs) = Some (map f rest, Inr (map f zs))"
        by (simp add: build_from_bottom_def)
      with eq run show ?thesis by simp
    qed
  qed
qed

lemma copy_strips_retag:
  assumes same: "\<And>x. snd (f x) = snd x"
  shows "copy_strips final ch (map f strips) = copy_strips final ch strips"
proof (induction strips arbitrary: final ch)
  case Nil
  show ?case by simp
next
  case (Cons s strips)
  then show ?case
    by (simp add: same split: sum.splits)
qed

lemma merge_ordered_strips_retag:
  assumes same: "\<And>x. snd (f x) = snd x"
  shows "merge_ordered_strips fill (map f strips) = merge_ordered_strips fill strips"
proof (cases strips)
  case Nil
  then show ?thesis by (simp add: merge_ordered_strips_def)
next
  case (Cons s rest)
  have "map (\<lambda>s. get_height (snd s)) (map f strips) = map (\<lambda>s. get_height (snd s)) strips"
    by (simp add: same)
  with Cons copy_strips_retag [of f _ 0 strips, OF same] show ?thesis
    by (simp add: merge_ordered_strips_def same comp_def)
qed

lemma pipeline_retag:
  assumes same: "\<And>x. snd (f x) = snd x" and inj: "inj_on f (set xs)"
  shows "\<exists>result. pipeline fill xs = Some result \<and> pipeline fill (map f xs) = Some result"
  using build_from_bottom_retag [of f xs, OF same inj]
  by (auto simp: pipeline_def merge_ordered_strips_retag [OF same])

lemma build_from_bottom_on_emptied_list:
  "build_from_bottom ([] :: 'i strip list) = Some ([], Inl ValueError)"
  by (simp add: build_from_bottom_def find_bottom_strip_def)

text \<open>
  C8, as stated, fails: build\_from\_bottom removes every strip it places from the list it
  is given, so the first run leaves the collection empty, and the second run on that
  collection raises ValueError (find\_bottom\_strip returns None on the empty list and
  \<^verbatim>\<open>image_strips.remove(None)\<close> raises) where the first run returned an image.
\<close>

theorem rerun_on_same_list_counterexample:
  "build_from_bottom [gray_strip 0 100 200, gray_strip 1 200 255]
     = Some ([], Inr [gray_strip 0 100 200, gray_strip 1 200 255]) \<and>
   pipeline (Pixel 0 0 0) [gray_strip 0 100 200, gray_strip 1 200 255]
     = Some (Inr \<lparr>width = 2, height = 4,
                  pixels = [[Pixel 100 100 100, Pixel 100 100 100],
                            [Pixel 200 200 200, Pixel 200 200 200],
                            [Pixel 200 200 200, Pixel 200 200 200],
                            [Pixel 255 255 255, Pixel 255 255 255]]\<rparr>) \<and>
   pipeline (Pixel 0 0 0) ([] :: nat strip list) = Some (Inl ValueError)"
proof -
  have b: "build_from_bottom [gray_strip 0 100 200, gray_strip 1 200 255]
           = Some ([], Inr [gray_strip 0 100 200, gray_strip 1 200 255])"
    by (simp add: build_from_bottom_def find_bottom_strip_def best_match_score_def
        find_most_similar_strip_for_upwards_def list_remove_def build_loop.simps
        LinkedList_def Node_def prepend_def to_list_def walk.simps
        gray_strip_def pixel_diff_def)
  have m: "merge_ordered_strips (Pixel 0 0 0) [gray_strip 0 100 200, gray_strip 1 200 255]
           = Inr \<lparr>width = 2, height = 4,
                  pixels = [[Pixel 100 100 100, Pixel 100 100 100],
                            [Pixel 200 200 200, Pixel 200 200 200],
                            [Pixel 200 200 200, Pixel 200 200 200],
                            [Pixel 255 255 255, Pixel 255 255 255]]\<rparr>"
    by (simp add: merge_ordered_strips_def new_image_def gray_strip_def get_width_def
        get_height_def get_pixel_def set_pixel_def upt_rec numeral_2_eq_2 numeral_3_eq_3)
  have e: "pipeline (Pixel 0 0 0) ([] :: nat strip list) = Some (Inl ValueError)"
    by (simp add: pipeline_def build_from_bottom_on_emptied_list)
  from b m e show ?thesis
    by (simp add: pipeline_def)
qed

text \<open>
  C8 (amended): re-running the pipeline (build\_from\_bottom, then merge\_ordered\_strips) on
  a collection that again holds the same strips in the same iteration order yields the
  same outcome as the first run, the same image bit for bit. Since the first run empties
  the list it is given, the second run needs the strips supplied again: as a copy of the
  original list (\<open>g\<close> the identity), or loaded again as new objects \<open>g i\<close> with the
  same contents in the same order. The pipeline always returns.
\<close>

theorem pipeline_rerun_same_image:
  assumes "inj_on g (fst ` set image_strips)"
  shows "\<exists>result. pipeline fill image_strips = Some result \<and>
           pipeline fill (map (apfst g) image_strips) = Some result"
proof (rule pipeline_retag)
  show "snd (apfst g x) = snd x" for x :: "'a strip"
    by simp
  show "inj_on (apfst g) (set image_strips)"
  proof (rule inj_onI)
    fix x y
    assume x: "x \<in> set image_strips" and y: "y \<in> set image_strips"
      and eq: "apfst g x = apfst g y"
    from eq have "g (fst x) = g (fst y)" "snd x = snd y"
      by (simp_all add: apfst_def map_prod_def split_beta)
    with assms x y have "fst x = fst y"
      by (auto dest: inj_onD)
    with \<open>snd x = snd y\<close> show "x = y"
      by (simp add: prod_eq_iff)
  qed
qed

theorem pipeline_rerun_same_image_witness:
  "pipeline (Pixel 0 0 0) [gray_strip 0 100 200, gray_strip 1 200 255, gray_strip 2 0 100]
     = Some (Inr \<lparr>width = 2, height = 6,
                  pixels = [[Pixel 0 0 0, Pixel 0 0 0], [Pixel 100 100 100, Pixel 100 100 100],
                            [Pixel 100 100 100, Pixel 100 100 100],
                            [Pixel 200 200 200, Pixel 200 200 200],
                            [Pixel 200 200 200, Pixel 200 200 200],
                            [Pixel 255 255 255, Pixel 255 255 255]]\<rparr>) \<and>
   pipeline (Pixel 0 0 0) [gray_strip 10 100 200, gray_strip 11 200 255, gray_strip 12 0 100]
     = pipeline (Pixel 0 0 0) [gray_strip 0 100 200, gray_strip 1 200 255, gray_strip 2 0 100]"
proof -
  let ?xs = "[gray_strip 0 100 200, gray_strip 1 200 255, gray_strip 2 0 100]"
  have h: "inj_on (\<lambda>i. i + 10) (fst ` set ?xs)"
    by (simp add: inj_on_def)
  have m: "map (apfst (\<lambda>i. i + 10)) ?xs
           = [gray_strip 10 100 200, gray_strip 11 200 255, gray_strip 12 0 100]"
    by (simp add: gray_strip_def)
  have v: "pipeline (Pixel 0 0 0) ?xs
     = Some (Inr \<lparr>width = 2, height = 6,
                  pixels = [[Pixel 0 0 0, Pixel 0 0 0], [Pixel 100 100 100, Pixel 100 100 100],
                            [Pixel 100 100 100, Pixel 100 100 100],
                            [Pixel 200 200 200, Pixel 200 200 200],
                            [Pixel 200 200 200, Pixel 200 200 200],
                            [Pixel 255 255 255, Pixel 255 255 255]]\<rparr>)"
    by (simp add: pipeline_def build_from_bottom_def find_bottom_strip_def best_match_score_def
        find_most_similar_strip_for_upwards_def list_remove_def build_loop.simps
        LinkedList_def Node_def prepend_def to_list_def walk.simps
        gray_strip_def pixel_diff_def
        merge_ordered_strips_def new_image_def get_width_def
        get_height_def get_pixel_def set_pixel_def upt_rec numeral_2_eq_2 numeral_3_eq_3)
  from pipeline_rerun_same_image [OF h, of "Pixel 0 0 0"] m v show ?thesis
    by auto
qed

end
